theory Spec2Isabelle
  imports Main "HOL-Library.Signed_Division"
begin

section \<open>The link matrix of \<^verbatim>\<open>Sudoku.h\<close>\<close>

text \<open>
  The solver keeps two fixed arrays, \<^verbatim>\<open>columns[column_size]\<close> and
  \<^verbatim>\<open>cells[row_size][cells_per_row]\<close>, and links their elements with raw
  pointers.  An address is therefore either \<^verbatim>\<open>&columns[i]\<close> or
  \<^verbatim>\<open>&cells[r][k]\<close>.  A \<^verbatim>\<open>Column*\<close> is represented by the index of the
  column it points to.
\<close>

datatype addr = Col nat | Cell nat nat

datatype error = OutOfBounds

abbreviation grid_size :: nat where "grid_size \<equiv> 81"
abbreviation constraints :: nat where "constraints \<equiv> 324"
abbreviation row_size :: nat where "row_size \<equiv> 729"
abbreviation cells_per_row :: nat where "cells_per_row \<equiv> 4"
abbreviation column_size :: nat where "column_size \<equiv> 325"

text \<open>
  The store: one function per field of \<^verbatim>\<open>dl::Cell\<close> and \<^verbatim>\<open>dl::Column\<close>, the
  members of the class, and the text written to standard output (one entry per
  call of \<^verbatim>\<open>printSolution\<close>: the 9 lines of 9 numbers it prints, \<open>None\<close> for a
  number read from a slot of the local array that was never assigned).  The
  diagnostic \<^verbatim>\<open>name\<close> of a column is never read and is left out.
\<close>

record state =
  up :: "addr \<Rightarrow> addr"
  down :: "addr \<Rightarrow> addr"
  left :: "addr \<Rightarrow> addr"
  right :: "addr \<Rightarrow> addr"
  col :: "addr \<Rightarrow> nat"
  row :: "addr \<Rightarrow> int"
  count :: "nat \<Rightarrow> int"
  row_count :: nat
  root :: nat
  solution :: "nat \<Rightarrow> int"
  printed :: "int option list list list"

subsection \<open>\<^verbatim>\<open>dl::cover\<close> and \<^verbatim>\<open>dl::uncover\<close>\<close>

text \<open>Lines 58--60: the body of the inner loop of \<^verbatim>\<open>cover\<close>, statement by statement.\<close>

definition unlink_cell :: "addr \<Rightarrow> state \<Rightarrow> state" where
  "unlink_cell j s =
     (let s1 = s\<lparr>up := (up s)(down s j := up s j)\<rparr>;
          s2 = s1\<lparr>down := (down s1)(up s1 j := down s1 j)\<rparr>
      in s2\<lparr>count := (count s2)(col s2 j := count s2 (col s2 j) - 1)\<rparr>)"

text \<open>Lines 56--61: \<^verbatim>\<open>for (Cell* j = i->right; j != i; j = j->right)\<close>.\<close>

partial_function (option) cover_row :: "addr \<Rightarrow> addr \<Rightarrow> state \<Rightarrow> state option" where
  "cover_row i j s =
     (if j = i then Some s
      else let s' = unlink_cell j s in cover_row i (right s' j) s')"

text \<open>Lines 53--62: \<^verbatim>\<open>for (Cell* i = cell->down; i != cell; i = i->down)\<close>.\<close>

partial_function (option) cover_col :: "addr \<Rightarrow> addr \<Rightarrow> state \<Rightarrow> state option" where
  "cover_col cell i s =
     (if i = cell then Some s
      else case cover_row i (right s i) s of
             None \<Rightarrow> None
           | Some s' \<Rightarrow> cover_col cell (down s' i) s')"

text \<open>Lines 49--50: the column header leaves the header ring.\<close>

definition unlink_header :: "addr \<Rightarrow> state \<Rightarrow> state" where
  "unlink_header cell s =
     (let s1 = s\<lparr>left := (left s)(right s cell := left s cell)\<rparr>
      in s1\<lparr>right := (right s1)(left s1 cell := right s1 cell)\<rparr>)"

definition cover :: "nat \<Rightarrow> state \<Rightarrow> state option" where
  "cover c s = (let s' = unlink_header (Col c) s in cover_col (Col c) (down s' (Col c)) s')"

text \<open>Lines 74--76: the body of the inner loop of \<^verbatim>\<open>uncover\<close>.\<close>

definition relink_cell :: "addr \<Rightarrow> state \<Rightarrow> state" where
  "relink_cell j s =
     (let s1 = s\<lparr>count := (count s)(col s j := count s (col s j) + 1)\<rparr>;
          s2 = s1\<lparr>up := (up s1)(down s1 j := j)\<rparr>
      in s2\<lparr>down := (down s2)(up s2 j := j)\<rparr>)"

text \<open>Lines 72--77: \<^verbatim>\<open>for (Cell* j = i->left; j != i; j = j->left)\<close>.\<close>

partial_function (option) uncover_row :: "addr \<Rightarrow> addr \<Rightarrow> state \<Rightarrow> state option" where
  "uncover_row i j s =
     (if j = i then Some s
      else let s' = relink_cell j s in uncover_row i (left s' j) s')"

text \<open>Lines 69--78: \<^verbatim>\<open>for (Cell* i = cell->up; i != cell; i = i->up)\<close>.\<close>

partial_function (option) uncover_col :: "addr \<Rightarrow> addr \<Rightarrow> state \<Rightarrow> state option" where
  "uncover_col cell i s =
     (if i = cell then Some s
      else case uncover_row i (left s i) s of
             None \<Rightarrow> None
           | Some s' \<Rightarrow> uncover_col cell (up s' i) s')"

text \<open>Lines 81--82: the column header returns to the header ring.\<close>

definition relink_header :: "addr \<Rightarrow> state \<Rightarrow> state" where
  "relink_header cell s =
     (let s1 = s\<lparr>left := (left s)(right s cell := cell)\<rparr>
      in s1\<lparr>right := (right s1)(left s1 cell := cell)\<rparr>)"

definition uncover :: "nat \<Rightarrow> state \<Rightarrow> state option" where
  "uncover c s =
     (case uncover_col (Col c) (up s (Col c)) s of
        None \<Rightarrow> None
      | Some s' \<Rightarrow> Some (relink_header (Col c) s'))"

subsection \<open>The constructor and \<^verbatim>\<open>insertRow\<close>\<close>

text \<open>Lines 94--103: the body of the first loop of the constructor.\<close>

definition init_column :: "nat \<Rightarrow> state \<Rightarrow> state" where
  "init_column i s =
     s\<lparr>up := (up s)(Col i := Col i),
       down := (down s)(Col i := Col i),
       right := (right s)(Col i := Col ((i + 1) mod column_size)),
       left := (left s)(Col i := Col ((column_size - 1 + i) mod column_size)),
       count := (count s)(i := 0),
       col := (col s)(Col i := i)\<rparr>"

text \<open>
  Lines 137--152: the body of the loop of \<^verbatim>\<open>insertRow\<close>.  Indexing
  \<^verbatim>\<open>cells\<close> or \<^verbatim>\<open>columns\<close> outside the array is an error of the model.
\<close>

definition insert_cell :: "nat list \<Rightarrow> nat \<Rightarrow> state \<Rightarrow> error + state" where
  "insert_cell items i s =
     (if \<not> row_count s < row_size \<or> \<not> i < length items \<or> \<not> items ! i < column_size
      then Inl OutOfBounds
      else
        let cell = Cell (row_count s) i;
            s1 = s\<lparr>col := (col s)(cell := items ! i)\<rparr>;
            s2 = s1\<lparr>row := (row s1)(cell := int (row_count s1))\<rparr>;
            s3 = s2\<lparr>count := (count s2)(col s2 cell := count s2 (col s2 cell) + 1)\<rparr>;
            s4 = s3\<lparr>up := (up s3)(cell := up s3 (Col (col s3 cell)))\<rparr>;
            s5 = s4\<lparr>down := (down s4)(cell := Col (col s4 cell))\<rparr>;
            s6 = s5\<lparr>down := (down s5)(up s5 (Col (col s5 cell)) := cell)\<rparr>;
            s7 = s6\<lparr>up := (up s6)(Col (col s6 cell) := cell)\<rparr>;
            s8 = s7\<lparr>right := (right s7)(cell := Cell (row_count s7) ((i + 1) mod cells_per_row))\<rparr>
        in Inr (s8\<lparr>left := (left s8)
                  (cell := Cell (row_count s8) ((cells_per_row - 1 + i) mod cells_per_row))\<rparr>))"

text \<open>A counted loop whose body may fail.\<close>

fun for_each :: "('a \<Rightarrow> 's \<Rightarrow> error + 's) \<Rightarrow> 'a list \<Rightarrow> 's \<Rightarrow> error + 's" where
  "for_each f [] s = Inr s"
| "for_each f (x # xs) s = (case f x s of Inl e \<Rightarrow> Inl e | Inr s' \<Rightarrow> for_each f xs s')"

definition insertRow :: "nat list \<Rightarrow> state \<Rightarrow> error + state" where
  "insertRow items s =
     (case for_each (insert_cell items) [0..<cells_per_row] s of
        Inl e \<Rightarrow> Inl e
      | Inr s' \<Rightarrow> Inr (s'\<lparr>row_count := row_count s' + 1\<rparr>))"

text \<open>Lines 114--126: the four constraint columns of candidate \<open>i\<close>.\<close>

definition row_items :: "nat \<Rightarrow> nat list" where
  "row_items i =
     (let col = (i div 9) mod 9;
          row = i div 81;
          num = i mod 9;
          col_block_group = col div 3;
          row_block_group = row div 3;
          cell_constraint = i div 9;
          row_constraint = (row * 9) + num;
          column_constraint = i mod 81;
          block_constraint = row_block_group * 27 + col_block_group * 9 + num
      in [cell_constraint, 81 + row_constraint, 162 + column_constraint, 243 + block_constraint])"

text \<open>
  The constructor runs on the storage of the object as it is found, \<open>s0\<close>; the
  member initialisers set \<^verbatim>\<open>row_count\<close> and every column's \<^verbatim>\<open>count\<close> to 0,
  and nothing has been printed.
\<close>

definition Sudoku :: "state \<Rightarrow> error + state" where
  "Sudoku s0 =
     (let s1 = s0\<lparr>row_count := 0, count := (\<lambda>_. 0), printed := []\<rparr>;
          s2 = fold init_column [0..<column_size] s1;
          s3 = s2\<lparr>root := column_size - 1\<rparr>
      in for_each (\<lambda>i. insertRow (row_items i)) [0..<row_size] s3)"

subsection \<open>\<^verbatim>\<open>printSolution\<close>\<close>

text \<open>
  Lines 164--167.  The operators \<^verbatim>\<open>/\<close> and \<^verbatim>\<open>%\<close> of C++ truncate towards
  zero; a write outside the local 9 by 9 array is an error of the model.
\<close>

definition decode_entry :: "int \<Rightarrow> int option list list \<Rightarrow> error + int option list list" where
  "decode_entry v g =
     (let col = (v sdiv 9) smod 9;
          row = v sdiv 81;
          num = v smod 9
      in if 0 \<le> row \<and> row < 9 \<and> 0 \<le> col \<and> col < 9
         then Inr (g[nat row := (g ! nat row)[nat col := Some num]])
         else Inl OutOfBounds)"

definition decode :: "(nat \<Rightarrow> int) \<Rightarrow> error + int option list list" where
  "decode sol =
     for_each (\<lambda>k. decode_entry (sol k)) [0..<grid_size] (replicate 9 (replicate 9 None))"

definition printSolution :: "state \<Rightarrow> error + state" where
  "printSolution s =
     (case decode (solution s) of
        Inl e \<Rightarrow> Inl e
      | Inr g \<Rightarrow> Inr (s\<lparr>printed := printed s @ [map (map (map_option (\<lambda>v. v + 1))) g]\<rparr>))"

subsection \<open>\<^verbatim>\<open>search\<close>\<close>

text \<open>Lines 206--212: the scan of the header ring for a column of least count.\<close>

partial_function (option) choose_column :: "addr \<Rightarrow> addr \<Rightarrow> state \<Rightarrow> addr option" where
  "choose_column candidate c s =
     (if candidate = Col (root s) then Some c
      else choose_column (right s candidate)
             (if count s (col s candidate) < count s (col s c) then candidate else c) s)"

text \<open>Lines 220--223 and 227--230: the columns of the other cells of row \<open>r\<close>.\<close>

partial_function (option) cover_others :: "addr \<Rightarrow> addr \<Rightarrow> state \<Rightarrow> state option" where
  "cover_others r j s =
     (if j = r then Some s
      else case cover (col s j) s of
             None \<Rightarrow> None
           | Some s' \<Rightarrow> cover_others r (right s' j) s')"

partial_function (option) uncover_others :: "addr \<Rightarrow> addr \<Rightarrow> state \<Rightarrow> state option" where
  "uncover_others r j s =
     (if j = r then Some s
      else case uncover (col s j) s of
             None \<Rightarrow> None
           | Some s' \<Rightarrow> uncover_others r (left s' j) s')"

text \<open>
  \<^verbatim>\<open>search\<close> recurses inside its loop over the rows of the chosen column.  The
  first argument bounds the number of nested calls and loop iterations; \<open>None\<close>
  means that the bound was reached or that a loop of the link matrix does not
  end.  Writing \<^verbatim>\<open>solution[k]\<close> outside the array is an error of the model.
\<close>

fun search :: "nat \<Rightarrow> nat \<Rightarrow> state \<Rightarrow> (error + state) option"
  and search_rows :: "nat \<Rightarrow> nat \<Rightarrow> addr \<Rightarrow> addr \<Rightarrow> state \<Rightarrow> (error + state) option"
where
  "search 0 k s = None"
| "search (Suc n) k s =
     (if right s (Col (root s)) = Col (root s) then Some (printSolution s)
      else case choose_column (right s (Col (root s))) (right s (Col (root s))) s of
             None \<Rightarrow> None
           | Some c \<Rightarrow>
             (case cover (col s c) s of
                None \<Rightarrow> None
              | Some s1 \<Rightarrow>
                (case search_rows n k c (down s1 c) s1 of
                   None \<Rightarrow> None
                 | Some (Inl e) \<Rightarrow> Some (Inl e)
                 | Some (Inr s2) \<Rightarrow> map_option Inr (uncover (col s2 c) s2))))"
| "search_rows 0 k c r s = None"
| "search_rows (Suc n) k c r s =
     (if r = c then Some (Inr s)
      else if \<not> k < grid_size then Some (Inl OutOfBounds)
      else
        let s1 = s\<lparr>solution := (solution s)(k := row s r)\<rparr>
        in case cover_others r (right s1 r) s1 of
             None \<Rightarrow> None
           | Some s2 \<Rightarrow>
             (case search n (k + 1) s2 of
                None \<Rightarrow> None
              | Some (Inl e) \<Rightarrow> Some (Inl e)
              | Some (Inr s3) \<Rightarrow>
                (case uncover_others r (left s3 r) s3 of
                   None \<Rightarrow> None
                 | Some s4 \<Rightarrow> search_rows n k c (down s4 r) s4)))"

subsection \<open>\<^verbatim>\<open>loadGridAndSolve\<close>\<close>





section \<open>Rings of the link matrix\<close>

text \<open>
  A circular doubly-linked list with header \<open>h\<close> and members \<open>xs\<close>:
  following \<open>nxt\<close> from \<open>h\<close> visits \<open>xs\<close> in order and returns to \<open>h\<close>, and
  \<open>prv\<close> walks the same ring backwards.
\<close>

fun linked :: "('a \<Rightarrow> 'a) \<Rightarrow> ('a \<Rightarrow> 'a) \<Rightarrow> 'a list \<Rightarrow> bool" where
  "linked nxt prv (a # b # xs) \<longleftrightarrow> nxt a = b \<and> prv b = a \<and> linked nxt prv (b # xs)"
| "linked nxt prv [a] \<longleftrightarrow> True"
| "linked nxt prv [] \<longleftrightarrow> True"

definition ring :: "('a \<Rightarrow> 'a) \<Rightarrow> ('a \<Rightarrow> 'a) \<Rightarrow> 'a \<Rightarrow> 'a list \<Rightarrow> bool" where
  "ring nxt prv h xs \<longleftrightarrow> distinct (h # xs) \<and> linked nxt prv (h # xs @ [h])"

text \<open>The result of the scan of lines 206--212 over the columns \<open>xs\<close>, starting with \<open>c\<close>.\<close>

fun scan_min :: "('a \<Rightarrow> int) \<Rightarrow> 'a \<Rightarrow> 'a list \<Rightarrow> 'a" where
  "scan_min f c [] = c"
| "scan_min f c (x # xs) = scan_min f (if f x < f c then x else c) xs"

text \<open>
  The walk of lines 206--212 along \<^verbatim>\<open>right\<close>: \<open>path nxt x xs h\<close> holds when the
  nodes met from \<open>x\<close> on, following \<open>nxt\<close> until \<open>h\<close> is met, are \<open>xs\<close>.
\<close>

fun path :: "('a \<Rightarrow> 'a) \<Rightarrow> 'a \<Rightarrow> 'a list \<Rightarrow> 'a \<Rightarrow> bool" where
  "path nxt x [] h \<longleftrightarrow> x = h"
| "path nxt x (y # ys) h \<longleftrightarrow> x = y \<and> y \<noteq> h \<and> path nxt (nxt y) ys h"

section \<open>The matrix after construction\<close>

text \<open>
  Column \<open>c\<close> belongs to the constraint family \<open>c div 81\<close>, and a candidate
  row has one cell per family, so the cell of row \<open>r\<close> that can lie in column
  \<open>c\<close> is \<^verbatim>\<open>cells[r][c / 81]\<close>.
\<close>

definition cell_of :: "nat \<Rightarrow> nat \<Rightarrow> addr" where
  "cell_of c r = Cell r (c div 81)"

definition in_col :: "nat \<Rightarrow> nat \<Rightarrow> bool" where
  "in_col c r \<longleftrightarrow> row_items r ! (c div 81) = c"

text \<open>The candidate rows with a cell in column \<open>c\<close>, in the order of insertion.\<close>

definition col_rows :: "nat \<Rightarrow> nat list" where
  "col_rows c = filter (in_col c) [0..<row_size]"

text \<open>
  The rows linked into column \<open>c\<close> when \<open>n\<close> rows have been inserted and
  \<^verbatim>\<open>insertRow\<close> has linked the first \<open>i\<close> cells of row \<open>n\<close>.
\<close>

definition rows_upto :: "nat \<Rightarrow> nat \<Rightarrow> nat \<Rightarrow> nat list" where
  "rows_upto n i c =
     filter (in_col c) [0..<n] @ (if c div 81 < i \<and> in_col c n then [n] else [])"

text \<open>The fields of the cells that never change after \<^verbatim>\<open>insertRow\<close>.\<close>

definition cell_fields :: "state \<Rightarrow> nat \<Rightarrow> nat \<Rightarrow> bool" where
  "cell_fields s r k \<longleftrightarrow>
     col s (Cell r k) = row_items r ! k \<and> row s (Cell r k) = int r \<and>
     right s (Cell r k) = Cell r ((k + 1) mod 4) \<and>
     left s (Cell r k) = Cell r ((k + 3) mod 4)"

definition built :: "nat \<Rightarrow> nat \<Rightarrow> state \<Rightarrow> bool" where
  "built n i s \<longleftrightarrow>
     row_count s = n \<and> root s = 324 \<and> printed s = [] \<and>
     ring (right s) (left s) (Col 324) (map Col [0..<324]) \<and>
     (\<forall>c<325. col s (Col c) = c) \<and>
     (\<forall>c<324. ring (down s) (up s) (Col c) (map (cell_of c) (rows_upto n i c)) \<and>
              count s c = int (length (rows_upto n i c))) \<and>
     (\<forall>r k. r < n \<and> k < 4 \<or> r = n \<and> k < i \<longrightarrow> cell_fields s r k)"

text \<open>
  The four constraint columns of candidate \<open>i\<close> as the specification gives them,
  and the test whether an address is a cell of matrix row \<open>i\<close>.
\<close>

definition spec_columns :: "nat \<Rightarrow> nat list" where
  "spec_columns i =
     (let row = i div 81; col = (i div 9) mod 9; digit = i mod 9
      in [row * 9 + col, 81 + row * 9 + digit, 162 + (i mod 81),
          243 + (row div 3) * 27 + (col div 3) * 9 + digit])"

fun in_row :: "nat \<Rightarrow> addr \<Rightarrow> bool" where
  "in_row i (Cell r k) \<longleftrightarrow> r = i"
| "in_row i (Col c) \<longleftrightarrow> False"

text \<open>A storage in which every pointer and every integer is zero.\<close>

definition blank :: state where
  "blank =
     \<lparr>up = (\<lambda>x. Col 0), down = (\<lambda>x. Col 0), left = (\<lambda>x. Col 0), right = (\<lambda>x. Col 0),
      col = (\<lambda>x. 0), row = (\<lambda>x. 0), count = (\<lambda>c. 0),
      row_count = 0, root = 0, solution = (\<lambda>k. 0), printed = []\<rparr>"

text \<open>
  The invariant of the link matrix, for the rows \<open>R c\<close> linked into each
  column \<open>c\<close>: the fields set by the constructor are intact, and the ring of
  column \<open>c\<close> consists of the cells of the rows \<open>R c\<close>, which \<^verbatim>\<open>count\<close>
  counts.
\<close>

definition matrix_ok :: "state \<Rightarrow> (nat \<Rightarrow> nat list) \<Rightarrow> bool" where
  "matrix_ok s R \<longleftrightarrow>
     (\<forall>c<325. col s (Col c) = c) \<and>
     (\<forall>r<729. \<forall>k<4. cell_fields s r k) \<and>
     (\<forall>c<324. ring (down s) (up s) (Col c) (map (cell_of c) (R c)) \<and>
              count s c = int (length (R c)) \<and>
              (\<forall>r\<in>set (R c). r < 729 \<and> in_col c r))"

text \<open>
  The cells of row \<open>r\<close> other than its cell in column \<open>c\<close>, in the order in
  which \<^verbatim>\<open>cover\<close> meets them going right, and the effect of the inner loops of
  \<^verbatim>\<open>cover\<close> and \<^verbatim>\<open>uncover\<close> on them.
\<close>

definition other_cells :: "nat \<Rightarrow> nat \<Rightarrow> addr list" where
  "other_cells c r =
     [Cell r ((c div 81 + 1) mod 4), Cell r ((c div 81 + 2) mod 4), Cell r ((c div 81 + 3) mod 4)]"

definition unlink_row :: "nat \<Rightarrow> nat \<Rightarrow> state \<Rightarrow> state" where
  "unlink_row c r s = fold unlink_cell (other_cells c r) s"

definition relink_row :: "nat \<Rightarrow> nat \<Rightarrow> state \<Rightarrow> state" where
  "relink_row c r s = fold relink_cell (rev (other_cells c r)) s"

text \<open>Every row with a cell in the ring of column \<open>c\<close> is linked into all its four columns.\<close>

definition rows_linked :: "(nat \<Rightarrow> nat list) \<Rightarrow> nat \<Rightarrow> bool" where
  "rows_linked R c \<longleftrightarrow> (\<forall>r\<in>set (R c). \<forall>k<4. r \<in> set (R (row_items r ! k)))"

text \<open>
  The state of the matrix when the columns \<open>D\<close> are covered: the header ring
  holds the other columns in increasing order, a row is alive when none of its
  columns is covered, and the ring of an uncovered column holds its alive rows.
\<close>

definition live_cols :: "nat set \<Rightarrow> nat list" where
  "live_cols D = filter (\<lambda>c. c \<notin> D) [0..<constraints]"

definition alive :: "nat set \<Rightarrow> nat \<Rightarrow> bool" where
  "alive D r \<longleftrightarrow> (\<forall>c\<in>set (row_items r). c \<notin> D)"

definition Inv :: "state \<Rightarrow> nat set \<Rightarrow> (nat \<Rightarrow> nat list) \<Rightarrow> bool" where
  "Inv s D R \<longleftrightarrow>
     root s = 324 \<and> D \<subseteq> {0..<324} \<and> matrix_ok s R \<and>
     ring (right s) (left s) (Col 324) (map Col (live_cols D)) \<and>
     (\<forall>c<324. c \<notin> D \<longrightarrow> R c = filter (alive D) (col_rows c))"

text \<open>
  The members of a ring, found by following \<open>nxt\<close> from \<open>x\<close> until the header
  \<open>h\<close>, for at most \<open>n\<close> steps.  A column is live when it is met on the walk
  from \<^verbatim>\<open>root->right\<close> around the header ring.
\<close>

fun walk :: "nat \<Rightarrow> ('a \<Rightarrow> 'a) \<Rightarrow> 'a \<Rightarrow> 'a \<Rightarrow> 'a list" where
  "walk 0 nxt h x = []"
| "walk (Suc n) nxt h x = (if x = h then [] else x # walk n nxt h (nxt x))"

definition live :: "state \<Rightarrow> nat \<Rightarrow> bool" where
  "live s c \<longleftrightarrow>
     Col c \<in> set (walk column_size (right s) (Col (root s)) (right s (Col (root s))))"

text \<open>
  The matrix states reached from the constructed matrix by calls of \<^verbatim>\<open>cover\<close>
  on live columns and calls of \<^verbatim>\<open>uncover\<close> that undo the most recent
  outstanding \<^verbatim>\<open>cover\<close>; the list holds the columns covered and not yet
  uncovered, the most recent first.
\<close>

inductive reachable :: "nat list \<Rightarrow> state \<Rightarrow> bool" where
  constructed: "Sudoku s0 = Inr s \<Longrightarrow> reachable [] s"
| covered: "reachable cs s \<Longrightarrow> live s c \<Longrightarrow> cover c s = Some s' \<Longrightarrow> reachable (c # cs) s'"
| uncovered: "reachable (c # cs) s \<Longrightarrow> uncover c s = Some s' \<Longrightarrow> reachable cs s'"

fun stack_ok :: "nat list \<Rightarrow> state \<Rightarrow> bool" where
  "stack_ok [] s \<longleftrightarrow> True"
| "stack_ok (c # cs) s \<longleftrightarrow>
     (\<exists>p. uncover c s = Some p \<and> (\<exists>D R. Inv p D R) \<and> stack_ok cs p)"






text \<open>The fields that \<^verbatim>\<open>cover\<close> and \<^verbatim>\<open>uncover\<close> never write.\<close>

definition same_frame :: "state \<Rightarrow> state \<Rightarrow> bool" where
  "same_frame s s' \<longleftrightarrow>
     col s' = col s \<and> row s' = row s \<and> solution s' = solution s \<and> printed s' = printed s \<and>
     root s' = root s \<and> row_count s' = row_count s"


section \<open>Algorithm X on the set of covered columns\<close>

text \<open>
  When the columns \<open>D\<close> are covered, \<^verbatim>\<open>search\<close> depends on the link matrix only
  through \<open>D\<close>.  The following functions are \<^verbatim>\<open>search\<close> and its loop over the
  rows of the chosen column, on \<open>D\<close>, the solution trace and the output; they
  take the same bound on the number of calls.
\<close>

definition with_io :: "(nat \<Rightarrow> int) \<Rightarrow> int option list list list \<Rightarrow> state \<Rightarrow> state" where
  "with_io sol out s = s\<lparr>solution := sol, printed := out\<rparr>"

definition acount :: "nat set \<Rightarrow> nat \<Rightarrow> int" where
  "acount D c = int (length (filter (alive D) (col_rows c)))"

definition aprint ::
  "(nat \<Rightarrow> int) \<times> int option list list list \<Rightarrow> error + (nat \<Rightarrow> int) \<times> int option list list list" where
  "aprint so =
     (case decode (fst so) of
        Inl e \<Rightarrow> Inl e
      | Inr g \<Rightarrow> Inr (fst so, snd so @ [map (map (map_option (\<lambda>v. v + 1))) g]))"

fun asearch ::
    "nat \<Rightarrow> nat \<Rightarrow> nat set \<Rightarrow> (nat \<Rightarrow> int) \<times> int option list list list
      \<Rightarrow> (error + (nat \<Rightarrow> int) \<times> int option list list list) option"
  and asearch_rows ::
    "nat \<Rightarrow> nat \<Rightarrow> nat set \<Rightarrow> nat list \<Rightarrow> (nat \<Rightarrow> int) \<times> int option list list list
      \<Rightarrow> (error + (nat \<Rightarrow> int) \<times> int option list list list) option"
where
  "asearch 0 k D so = None"
| "asearch (Suc n) k D so =
     (case live_cols D of
        [] \<Rightarrow> Some (aprint so)
      | h # t \<Rightarrow>
          asearch_rows n k D (filter (alive D) (col_rows (scan_min (acount D) h t))) so)"
| "asearch_rows 0 k D rs so = None"
| "asearch_rows (Suc n) k D [] so = Some (Inr so)"
| "asearch_rows (Suc n) k D (r # rs) so =
     (if \<not> k < grid_size then Some (Inl OutOfBounds)
      else case asearch n (k + 1) (D \<union> set (row_items r)) ((fst so)(k := int r), snd so) of
             None \<Rightarrow> None
           | Some (Inl e) \<Rightarrow> Some (Inl e)
           | Some (Inr so') \<Rightarrow> asearch_rows n k D rs so')"

section \<open>The order of the links\<close>

text \<open>
  An invariant of the matrix that holds after any sequence of calls of
  \<^verbatim>\<open>cover\<close> and \<^verbatim>\<open>uncover\<close>, in any order and on any columns: the pointers
  \<^verbatim>\<open>down\<close> and \<^verbatim>\<open>up\<close> stay inside a column and lead to a row of greater,
  respectively smaller, index or to the header, and the pointers \<^verbatim>\<open>right\<close> and
  \<^verbatim>\<open>left\<close> of a header lead to a header of greater, respectively smaller,
  index or to the root.
\<close>

definition col_node :: "nat \<Rightarrow> addr \<Rightarrow> bool" where
  "col_node c x \<longleftrightarrow> x = Col c \<or> (\<exists>r<729. in_col c r \<and> x = cell_of c r)"

definition below :: "nat \<Rightarrow> nat \<Rightarrow> addr \<Rightarrow> bool" where
  "below c r x \<longleftrightarrow> x = Col c \<or> (\<exists>r'<729. r < r' \<and> in_col c r' \<and> x = cell_of c r')"

definition above :: "nat \<Rightarrow> nat \<Rightarrow> addr \<Rightarrow> bool" where
  "above c r x \<longleftrightarrow> x = Col c \<or> (\<exists>r'<r. in_col c r' \<and> x = cell_of c r')"





section \<open>Auxiliary notions for the search\<close>

text \<open>The result of the search on the set of covered columns, as a result of \<^verbatim>\<open>search\<close>.\<close>

definition lift_io ::
  "state \<Rightarrow> (error + (nat \<Rightarrow> int) \<times> int option list list list) option \<Rightarrow> (error + state) option" where
  "lift_io s = map_option (map_sum id (\<lambda>so. with_io (fst so) (snd so) s))"


section \<open>Properties of rings\<close>

lemma linked_append:
  "linked nxt prv (xs @ y # ys) \<longleftrightarrow> linked nxt prv (xs @ [y]) \<and> linked nxt prv (y # ys)"
proof (induction xs)
  case Nil
  show ?case by simp
next
  case (Cons a xs)
  then show ?case by (cases xs) auto
qed

lemma linked_frame:
  "\<forall>x\<in>set (butlast l). nxt' x = nxt x \<Longrightarrow> \<forall>x\<in>set (tl l). prv' x = prv x \<Longrightarrow>
   linked nxt' prv' l = linked nxt prv l"
proof (induction nxt prv l rule: linked.induct)
  case (1 nxt prv a b xs)
  then show ?case by auto
qed simp_all

lemma ring_frame:
  assumes "ring nxt prv h xs"
    and "\<forall>x\<in>set (h # xs). nxt' x = nxt x \<and> prv' x = prv x"
  shows "ring nxt' prv' h xs"
proof -
  have "linked nxt' prv' (h # xs @ [h]) = linked nxt prv (h # xs @ [h])"
    using assms(2) by (intro linked_frame) (auto simp: butlast_append)
  then show ?thesis using assms(1) by (simp add: ring_def)
qed

lemma linked_last2: "linked nxt prv (ys @ [a, b]) \<Longrightarrow> nxt a = b \<and> prv b = a"
  using linked_append [of nxt prv ys a "[b]"] by simp

lemma ring_mid:
  assumes "ring nxt prv h (as @ x # bs)"
  shows "nxt x = hd (bs @ [h])" and "prv x = last (h # as)"
proof -
  obtain as' p where hp: "h # as = as' @ [p]"
    by (cases "h # as" rule: rev_cases) auto
  have l: "linked nxt prv ((h # as) @ x # bs @ [h])"
    using assms by (simp add: ring_def)
  then have a: "linked nxt prv (x # bs @ [h])" and b: "linked nxt prv ((h # as) @ [x])"
    using linked_append [of nxt prv "h # as" x "bs @ [h]"] by simp_all
  show "nxt x = hd (bs @ [h])" using a by (cases bs) simp_all
  have "linked nxt prv (as' @ [p, x])" using b unfolding hp by simp
  then have "prv x = p" by (rule linked_last2 [THEN conjunct2])
  moreover have "last (h # as) = p" unfolding hp by simp
  ultimately show "prv x = last (h # as)" by simp
qed

lemma ring_head:
  assumes "ring nxt prv h xs"
  shows "nxt h = hd (xs @ [h])" and "prv h = last (h # xs)"
proof -
  obtain as' p where hp: "h # xs = as' @ [p]"
    by (cases "h # xs" rule: rev_cases) auto
  have l: "linked nxt prv ((h # xs) @ [h])"
    using assms by (simp add: ring_def)
  show "nxt h = hd (xs @ [h])" using l by (cases xs) auto
  have "linked nxt prv (as' @ [p, h])" using l unfolding hp by simp
  then have "prv h = p" by (rule linked_last2 [THEN conjunct2])
  moreover have "last (h # xs) = p" unfolding hp by simp
  ultimately show "prv h = last (h # xs)" by simp
qed

lemma ring_remove:
  assumes "ring nxt prv h (as @ x # bs)"
  shows "ring (nxt(prv x := nxt x)) (prv(nxt x := prv x)) h (as @ bs)"
proof -
  obtain as' p where hp: "h # as = as' @ [p]"
    by (cases "h # as" rule: rev_cases) auto
  obtain q bs' where qb: "bs @ [h] = q # bs'"
    by (cases "bs @ [h]") auto
  have px: "prv x = p" and qx: "nxt x = q"
    using ring_mid [OF assms] hp qb by simp_all
  have d: "distinct ((h # as) @ x # bs)" and l: "linked nxt prv ((h # as) @ x # bs @ [h])"
    using assms by (simp_all add: ring_def)
  have d': "distinct (as' @ p # x # bs)" using d unfolding hp by simp
  have l': "linked nxt prv (as' @ p # x # q # bs')" using l unfolding hp qb by simp
  have l1: "linked nxt prv (as' @ [p])" and l2: "linked nxt prv (q # bs')"
    using l' linked_append [of nxt prv as' p "x # q # bs'"] by simp_all
  have tl1: "tl (as' @ [p]) = as" using hp [symmetric] by simp
  have bl2: "butlast (q # bs') = bs" using qb [symmetric] by simp
  have sa: "set as \<subseteq> set as' \<union> {p}" using tl1 [symmetric] by (cases as') auto
  have hin: "h \<in> set as' \<union> {p}" using hp by (cases as') auto
  have qin: "q = h \<or> q \<in> set bs" using qb by (cases bs) auto
  have bs'in: "set bs' \<subseteq> set bs \<union> {h}" using qb by (cases bs) auto
  have hd: "h \<notin> set as \<and> h \<noteq> x \<and> h \<notin> set bs" using d by simp
  have qa: "q \<notin> set as" using qin hd d by auto
  have pb: "p \<notin> set bs" using d' by simp
  have pn: "p \<notin> set as'" using d' by simp
  have qn: "q \<notin> set bs'"
  proof (cases bs)
    case Nil
    then show ?thesis using qb by simp
  next
    case (Cons b bs2)
    then show ?thesis using qb d by auto
  qed
  have "\<forall>y\<in>set (butlast (as' @ [p])). (nxt(p := q)) y = nxt y" using pn by simp
  moreover have "\<forall>y\<in>set (tl (as' @ [p])). (prv(q := p)) y = prv y" unfolding tl1 using qa by auto
  ultimately have f1: "linked (nxt(p := q)) (prv(q := p)) (as' @ [p]) = linked nxt prv (as' @ [p])"
    by (rule linked_frame)
  have "\<forall>y\<in>set (butlast (q # bs')). (nxt(p := q)) y = nxt y" unfolding bl2 using pb by auto
  moreover have "\<forall>y\<in>set (tl (q # bs')). (prv(q := p)) y = prv y" using qn by auto
  ultimately have f2: "linked (nxt(p := q)) (prv(q := p)) (q # bs') = linked nxt prv (q # bs')"
    by (rule linked_frame)
  have "linked (nxt(p := q)) (prv(q := p)) (as' @ p # q # bs')"
    using linked_append [of "nxt(p := q)" "prv(q := p)" as' p "q # bs'"] f1 f2 l1 l2 by simp
  moreover have "h # (as @ bs) @ [h] = as' @ p # q # bs'"
    using hp qb by simp
  ultimately have "linked (nxt(p := q)) (prv(q := p)) (h # (as @ bs) @ [h])" by simp
  then show ?thesis using d by (simp add: ring_def px qx)
qed

lemma ring_snoc:
  assumes "ring nxt prv h xs" and "x \<notin> set (h # xs)"
  shows "ring ((nxt(x := h))(prv h := x)) ((prv(x := prv h))(h := x)) h (xs @ [x])"
proof -
  obtain as' p where hp: "h # xs = as' @ [p]"
    by (cases "h # xs" rule: rev_cases) auto
  have ph: "prv h = p" using ring_head(2) [OF assms(1)] unfolding hp by simp
  have d: "distinct (h # xs)" and l: "linked nxt prv ((h # xs) @ [h])"
    using assms by (simp_all add: ring_def)
  have d': "distinct (as' @ [p])" using d unfolding hp .
  have l1: "linked nxt prv (as' @ [p])"
    using l linked_append [of nxt prv "as'" p "[h]"] unfolding hp by simp
  have pn: "p \<notin> set as'" using d' by simp
  have xs': "x \<notin> set (as' @ [p])" using assms(2) unfolding hp .
  have tl1: "tl (as' @ [p]) = xs" using hp [symmetric] by simp
  have hx: "h \<notin> set xs" using d by simp
  have xh: "x \<noteq> h" using assms(2) by simp
  have "\<forall>y\<in>set (butlast (as' @ [p])). ((nxt(x := h))(p := x)) y = nxt y"
    using pn xs' by auto
  moreover have "\<forall>y\<in>set (tl (as' @ [p])). ((prv(x := p))(h := x)) y = prv y"
    unfolding tl1 using hx assms(2) by auto
  ultimately have f1: "linked ((nxt(x := h))(p := x)) ((prv(x := p))(h := x)) (as' @ [p]) = linked nxt prv (as' @ [p])"
    by (rule linked_frame)
  have "linked ((nxt(x := h))(p := x)) ((prv(x := p))(h := x)) (as' @ p # [x, h])"
    using linked_append [of "(nxt(x := h))(p := x)" "(prv(x := p))(h := x)" as' p "[x, h]"] f1 l1 xs' xh
    by simp
  then have "linked ((nxt(x := h))(p := x)) ((prv(x := p))(h := x)) ((h # xs) @ [x, h])"
    unfolding hp by simp
  then show ?thesis using d assms(2) by (auto simp: ring_def ph)
qed


section \<open>The choice of the column\<close>

lemma choose_column_scan:
  assumes "ring (right s) (left s) (Col (root s)) (pre @ rest)"
  shows "choose_column (hd (rest @ [Col (root s)])) c s
       = Some (scan_min (\<lambda>x. count s (col s x)) c rest)"
  using assms
proof (induction rest arbitrary: pre c)
  case Nil
  show ?case by (subst choose_column.simps) simp
next
  case (Cons x rest)
  have r: "ring (right s) (left s) (Col (root s)) ((pre @ [x]) @ rest)"
    using Cons.prems by simp
  have nx: "right s x = hd (rest @ [Col (root s)])"
    using ring_mid(1) [OF Cons.prems] .
  have "x \<noteq> Col (root s)" using Cons.prems by (auto simp: ring_def)
  then show ?case
    using Cons.IH [OF r] by (subst choose_column.simps) (simp add: nx)
qed

lemma scan_min_le: "y \<in> set (c # xs) \<Longrightarrow> f (scan_min f c xs) \<le> f y"
proof (induction xs arbitrary: c y)
  case Nil
  then show ?case by simp
next
  case (Cons x xs)
  have "f (scan_min f (if f x < f c then x else c) xs) \<le> f (if f x < f c then x else c)"
    by (rule Cons.IH) simp
  moreover have "y \<in> set xs \<Longrightarrow> f (scan_min f (if f x < f c then x else c) xs) \<le> f y"
    by (rule Cons.IH) simp
  ultimately show ?case using Cons.prems by (auto split: if_splits)
qed

lemma scan_min_first:
  "\<exists>pre post. c # xs = pre @ scan_min f c xs # post \<and> (\<forall>y\<in>set pre. f (scan_min f c xs) < f y)"
proof (induction xs arbitrary: c)
  case Nil
  have "[c] = [] @ scan_min f c [] # []" by simp
  then show ?case by force
next
  case (Cons x xs)
  define c' where "c' = (if f x < f c then x else c)"
  define r where "r = scan_min f c' xs"
  obtain pre post where e: "c' # xs = pre @ r # post" and l: "\<forall>y\<in>set pre. f r < f y"
    using Cons.IH [of c'] by (auto simp: r_def)
  have rr: "scan_min f c (x # xs) = r" by (simp add: r_def c'_def)
  show ?case
  proof (cases pre)
    case Nil
    then have rc: "r = c'" and px: "post = xs" using e by simp_all
    show ?thesis
    proof (cases "f x < f c")
      case True
      then have "c # x # xs = [c] @ r # post" using rc px by (simp add: c'_def)
      moreover have "\<forall>y\<in>set [c]. f r < f y" using True rc by (simp add: c'_def)
      ultimately show ?thesis unfolding rr by blast
    next
      case False
      then have "c # x # xs = [] @ r # (x # xs)" using rc by (simp add: c'_def)
      then show ?thesis unfolding rr by force
    qed
  next
    case (Cons a pre2)
    then have ac: "a = c'" and xe: "xs = pre2 @ r # post" using e by simp_all
    have lt: "f r < f c'" using l Cons ac by simp
    have "c # x # xs = (c # x # pre2) @ r # post" using xe by simp
    moreover have "\<forall>y\<in>set (c # x # pre2). f r < f y"
      using l Cons lt by (auto simp: c'_def split: if_splits)
    ultimately show ?thesis unfolding rr by blast
  qed
qed

section \<open>Construction\<close>

lemma family_div: "x < 81 \<Longrightarrow> (81 * k + x) div 81 = (k::nat)"
  by simp

lemma row_items_eq:
  "row_items r = [81 * 0 + r div 9, 81 * 1 + (r div 81 * 9 + r mod 9), 81 * 2 + r mod 81,
     81 * 3 + (r div 81 div 3 * 27 + r div 9 mod 9 div 3 * 9 + r mod 9)]"
  by (simp add: row_items_def Let_def)

lemma row_items_bounds:
  assumes "(r::nat) < 729"
  shows "r div 9 < 81" and "r div 81 * 9 + r mod 9 < 81" and "r mod 81 < 81"
    and "r div 81 div 3 * 27 + r div 9 mod 9 div 3 * 9 + r mod 9 < 81"
proof -
  have a: "\<And>a b. a < 9 \<Longrightarrow> b < 9 \<Longrightarrow> a * 9 + b < (81::nat)" by linarith
  have b: "\<And>a b c. a < 3 \<Longrightarrow> b < 3 \<Longrightarrow> c < 9 \<Longrightarrow> a * 27 + b * 9 + c < (81::nat)" by linarith
  have r81: "r div 81 < 9" using assms by (simp add: less_mult_imp_div_less)
  have m9: "r mod 9 < 9" by simp
  show "r div 9 < 81" using assms by (simp add: less_mult_imp_div_less)
  show "r div 81 * 9 + r mod 9 < 81" by (rule a [OF r81 m9])
  show "r mod 81 < 81" by simp
  have "r div 81 div 3 < 3" using r81 by (simp add: less_mult_imp_div_less)
  moreover have "r div 9 mod 9 div 3 < 3" by (simp add: less_mult_imp_div_less)
  ultimately show "r div 81 div 3 * 27 + r div 9 mod 9 div 3 * 9 + r mod 9 < 81"
    using m9 by (rule b)
qed

lemma row_items_nth:
  assumes "r < 729" and "k < 4"
  shows "row_items r ! k < 324" and "row_items r ! k div 81 = k"
proof -
  note b = row_items_bounds [OF assms(1)]
  consider "k = 0" | "k = 1" | "k = 2" | "k = 3" using assms(2) by linarith
  then have "row_items r ! k < 324 \<and> row_items r ! k div 81 = k"
  proof cases
    case 1
    then show ?thesis using b(1) family_div [OF b(1), of 0] by (simp add: row_items_eq)
  next
    case 2
    then show ?thesis using b(2) family_div [OF b(2), of 1] by (simp add: row_items_eq)
  next
    case 3
    then show ?thesis using b(3) family_div [OF b(3), of 2] by (simp add: row_items_eq)
  next
    case 4
    then show ?thesis using b(4) family_div [OF b(4), of 3] by (simp add: row_items_eq)
  qed
  then show "row_items r ! k < 324" and "row_items r ! k div 81 = k" by simp_all
qed

lemma length_row_items [simp]: "length (row_items r) = 4"
  by (simp add: row_items_def Let_def)

lemma insert_cell_eq:
  assumes "row_count s < 729" and "i < 4" and "items ! i < 325" and "length items = 4"
  shows "insert_cell items i s =
    Inr (s\<lparr>col := (col s)(Cell (row_count s) i := items ! i),
           row := (row s)(Cell (row_count s) i := int (row_count s)),
           count := (count s)(items ! i := count s (items ! i) + 1),
           up := ((up s)(Cell (row_count s) i := up s (Col (items ! i))))(Col (items ! i) := Cell (row_count s) i),
           down := ((down s)(Cell (row_count s) i := Col (items ! i)))(up s (Col (items ! i)) := Cell (row_count s) i),
           right := (right s)(Cell (row_count s) i := Cell (row_count s) ((i + 1) mod 4)),
           left := (left s)(Cell (row_count s) i := Cell (row_count s) ((3 + i) mod 4))\<rparr>)"
  using assms by (simp add: insert_cell_def Let_def)


lemma rows_upto_mem:
  "r \<in> set (rows_upto n i c) \<Longrightarrow> r \<le> n \<and> in_col c r \<and> (r = n \<longrightarrow> c div 81 < i)"
  by (auto simp: rows_upto_def split: if_splits)

lemma cell_of_inj:
  assumes "cell_of c r = cell_of c' r'" and "in_col c r" and "in_col c' r'"
  shows "c = c'"
  using assms by (auto simp: cell_of_def in_col_def)

lemma distinct_rows_upto: "distinct (rows_upto n i c)"
  by (auto simp: rows_upto_def)

lemma rows_upto_Suc_same:
  assumes "n < 729" and "i < 4"
  shows "rows_upto n (Suc i) (row_items n ! i) = rows_upto n i (row_items n ! i) @ [n]"
  using row_items_nth(2) [OF assms] by (simp add: rows_upto_def in_col_def)

lemma rows_upto_Suc_other:
  assumes "c \<noteq> row_items n ! i"
  shows "rows_upto n (Suc i) c = rows_upto n i c"
  using assms by (auto simp: rows_upto_def in_col_def less_Suc_eq)

lemma rows_upto_next: "rows_upto n 4 c = rows_upto (Suc n) 0 c" if "c < 324"
proof -
  have "c div 81 < 4" using that by (simp add: less_mult_imp_div_less)
  then show ?thesis by (simp add: rows_upto_def)
qed

lemma column_nodes_disjoint:
  assumes "x \<in> set (Col c # map (cell_of c) (filter (in_col c) rs))"
    and "x \<in> set (Col d # map (cell_of d) (filter (in_col d) rs'))"
  shows "c = d"
proof (cases x)
  case (Col e)
  then show ?thesis using assms by (auto simp: cell_of_def)
next
  case (Cell r k)
  then have "x = cell_of c r \<and> in_col c r" and "x = cell_of d r \<and> in_col d r"
    using assms by (auto simp: cell_of_def)
  then show ?thesis using cell_of_inj by metis
qed

lemma rows_upto_filter: "rows_upto n i c = filter (in_col c) (rows_upto n i c)"
  by (simp add: rows_upto_def)

lemma built_insert_cell:
  assumes b: "built n i s" and n: "n < 729" and i: "i < 4"
  shows "\<exists>s'. insert_cell (row_items n) i s = Inr s' \<and> built n (Suc i) s'"
proof -
  define c where "c = row_items n ! i"
  define cell where "cell = Cell n i"
  define p where "p = up s (Col c)"
  have c324: "c < 324" and cdiv: "c div 81 = i"
    using row_items_nth [OF n i] by (simp_all add: c_def)
  have rc: "row_count s = n" using b by (simp add: built_def)
  define s' where "s' = s\<lparr>col := (col s)(cell := c),
           row := (row s)(cell := int n),
           count := (count s)(c := count s c + 1),
           up := ((up s)(cell := p))(Col c := cell),
           down := ((down s)(cell := Col c))(p := cell),
           right := (right s)(cell := Cell n ((i + 1) mod 4)),
           left := (left s)(cell := Cell n ((3 + i) mod 4))\<rparr>"
  have e: "insert_cell (row_items n) i s = Inr s'"
    using insert_cell_eq [of s i "row_items n"] n i c324
    by (simp add: rc s'_def c_def cell_def p_def)
  have rings: "\<And>d. d < 324 \<Longrightarrow> ring (down s) (up s) (Col d) (map (cell_of d) (rows_upto n i d))"
    and counts: "\<And>d. d < 324 \<Longrightarrow> count s d = int (length (rows_upto n i d))"
    using b by (simp_all add: built_def)
  have cell_new: "\<And>d. cell \<notin> set (Col d # map (cell_of d) (rows_upto n i d))"
    using rows_upto_mem by (fastforce simp: cell_def cell_of_def)
  have cc: "cell = cell_of c n" by (simp add: cell_def cell_of_def cdiv)
  have p_in: "p \<in> set (Col c # map (cell_of c) (rows_upto n i c))"
    using ring_head(2) [OF rings [OF c324]] unfolding p_def
    by (metis last_in_set list.distinct(1))
  have ring_c: "ring (down s') (up s') (Col c) (map (cell_of c) (rows_upto n (Suc i) c))"
    using ring_snoc [OF rings [OF c324] cell_new [of c]] rows_upto_Suc_same [OF n i]
    by (simp add: s'_def p_def c_def [symmetric] cc)
  have ring_other: "ring (down s') (up s') (Col d) (map (cell_of d) (rows_upto n (Suc i) d))"
    if d: "d < 324" and dc: "d \<noteq> c" for d
  proof -
    have "\<forall>x\<in>set (Col d # map (cell_of d) (rows_upto n i d)).
            down s' x = down s x \<and> up s' x = up s x"
    proof
      fix x assume x: "x \<in> set (Col d # map (cell_of d) (rows_upto n i d))"
      have "x \<noteq> cell" using cell_new [of d] x by blast
      moreover have "x \<noteq> Col c" using x dc by (auto simp: cell_of_def)
      moreover have "x \<noteq> p"
      proof
        assume "x = p"
        then have "p \<in> set (Col d # map (cell_of d) (rows_upto n i d))" using x by simp
        then have "c = d"
          using column_nodes_disjoint [of p c "rows_upto n i c" d "rows_upto n i d"] p_in
            rows_upto_filter [of n i c] rows_upto_filter [of n i d] by simp
        then show False using dc by simp
      qed
      ultimately show "down s' x = down s x \<and> up s' x = up s x" by (simp add: s'_def)
    qed
    then show ?thesis
      using ring_frame [OF rings [OF d]] rows_upto_Suc_other [of d n i] dc
      by (simp add: c_def)
  qed
  have cnt: "count s' d = int (length (rows_upto n (Suc i) d))" if d: "d < 324" for d
  proof (cases "d = c")
    case True
    then show ?thesis using counts [OF c324] rows_upto_Suc_same [OF n i]
      by (simp add: s'_def c_def [symmetric])
  next
    case False
    then show ?thesis using counts [OF d] rows_upto_Suc_other [of d n i]
      by (simp add: s'_def c_def)
  qed
  have hdr: "ring (right s') (left s') (Col 324) (map Col [0..<324])"
  proof -
    have "ring (right s) (left s) (Col 324) (map Col [0..<324])" using b by (simp add: built_def)
    then show ?thesis by (rule ring_frame) (auto simp: s'_def cell_def)
  qed
  have cols: "\<forall>d<325. col s' (Col d) = d" using b by (simp add: built_def s'_def cell_def)
  have fields: "cell_fields s' r k" if "r < n \<and> k < 4 \<or> r = n \<and> k < Suc i" for r k
  proof (cases "r = n \<and> k = i")
    case True
    then show ?thesis by (simp add: cell_fields_def s'_def cell_def c_def add.commute)
  next
    case False
    then have "r < n \<and> k < 4 \<or> r = n \<and> k < i" using that by auto
    then have "cell_fields s r k" using b unfolding built_def by blast
    moreover have "Cell r k \<noteq> cell" using False by (auto simp: cell_def)
    ultimately show ?thesis by (simp add: cell_fields_def s'_def)
  qed
  have "built n (Suc i) s'"
    unfolding built_def
  proof (intro conjI allI impI)
    show "row_count s' = n" by (simp add: s'_def rc)
    show "root s' = 324" using b by (simp add: s'_def built_def)
    show "printed s' = []" using b by (simp add: s'_def built_def)
    show "ring (right s') (left s') (Col 324) (map Col [0..<324])" by (rule hdr)
    show "col s' (Col d) = d" if "d < 325" for d using cols that by blast
    show "ring (down s') (up s') (Col d) (map (cell_of d) (rows_upto n (Suc i) d))" if "d < 324" for d
      using ring_c ring_other [OF that] by (cases "d = c") simp_all
    show "count s' d = int (length (rows_upto n (Suc i) d))" if "d < 324" for d
      by (rule cnt [OF that])
    show "cell_fields s' r k" if "r < n \<and> k < 4 \<or> r = n \<and> k < Suc i" for r k
      by (rule fields [OF that])
  qed
  then show ?thesis using e by blast
qed


lemma built_insert_cells:
  assumes "built n i s" and "n < 729" and "i \<le> 4"
  shows "\<exists>s'. for_each (insert_cell (row_items n)) [i..<4] s = Inr s' \<and> built n 4 s'"
  using assms
proof (induction "4 - i" arbitrary: i s)
  case 0
  then show ?case by simp
next
  case (Suc m)
  then have i: "i < 4" by linarith
  obtain s1 where s1: "insert_cell (row_items n) i s = Inr s1" and b1: "built n (Suc i) s1"
    using built_insert_cell [OF Suc.prems(1,2) i] by blast
  have "m = 4 - Suc i" using Suc.hyps(2) by linarith
  then obtain s' where "for_each (insert_cell (row_items n)) [Suc i..<4] s1 = Inr s'"
    and "built n 4 s'"
    using Suc.hyps(1) [of "Suc i" s1] b1 Suc.prems(2) i by auto
  then show ?case using s1 i by (simp add: upt_conv_Cons)
qed

lemma built_next_row:
  assumes "built n 4 s"
  shows "built (Suc n) 0 (s\<lparr>row_count := row_count s + 1\<rparr>)"
proof -
  have f: "cell_fields (s\<lparr>row_count := row_count s + 1\<rparr>) r k" 
    if "r < Suc n \<and> k < 4 \<or> r = Suc n \<and> k < 0" for r k
  proof -
    have "r < n \<and> k < 4 \<or> r = n \<and> k < 4" using that by auto
    then have "cell_fields s r k" using assms unfolding built_def by blast
    then show ?thesis by (simp add: cell_fields_def)
  qed
  have r: "ring (down s) (up s) (Col c) (map (cell_of c) (rows_upto (Suc n) 0 c)) \<and>
           count s c = int (length (rows_upto (Suc n) 0 c))" if "c < 324" for c
    using assms that rows_upto_next [OF that, of n] unfolding built_def by auto
  show ?thesis
    unfolding built_def
  proof (intro conjI allI impI)
    show "row_count (s\<lparr>row_count := row_count s + 1\<rparr>) = Suc n" 
      using assms by (simp add: built_def)
    show "root (s\<lparr>row_count := row_count s + 1\<rparr>) = 324" using assms by (simp add: built_def)
    show "printed (s\<lparr>row_count := row_count s + 1\<rparr>) = []" using assms by (simp add: built_def)
    show "ring (right (s\<lparr>row_count := row_count s + 1\<rparr>)) (left (s\<lparr>row_count := row_count s + 1\<rparr>))
            (Col 324) (map Col [0..<324])" using assms by (simp add: built_def)
    show "col (s\<lparr>row_count := row_count s + 1\<rparr>) (Col c) = c" if "c < 325" for c
      using assms that by (simp add: built_def)
    show "ring (down (s\<lparr>row_count := row_count s + 1\<rparr>)) (up (s\<lparr>row_count := row_count s + 1\<rparr>))
            (Col c) (map (cell_of c) (rows_upto (Suc n) 0 c))" if "c < 324" for c
      using r [OF that] by simp
    show "count (s\<lparr>row_count := row_count s + 1\<rparr>) c = int (length (rows_upto (Suc n) 0 c))"
      if "c < 324" for c using r [OF that] by simp
    show "cell_fields (s\<lparr>row_count := row_count s + 1\<rparr>) r k"
      if "r < Suc n \<and> k < 4 \<or> r = Suc n \<and> k < 0" for r k by (rule f [OF that])
  qed
qed

lemma built_insertRow:
  assumes "built n 0 s" and "n < 729"
  shows "\<exists>s'. insertRow (row_items n) s = Inr s' \<and> built (Suc n) 0 s'"
proof -
  obtain s1 where "for_each (insert_cell (row_items n)) [0..<4] s = Inr s1" and "built n 4 s1"
    using built_insert_cells [OF assms(1,2)] by auto
  then show ?thesis using built_next_row [of n s1] by (simp add: insertRow_def)
qed

lemma built_rows:
  assumes "built n 0 s" and "n \<le> 729"
  shows "\<exists>s'. for_each (\<lambda>i. insertRow (row_items i)) [n..<729] s = Inr s' \<and> built 729 0 s'"
  using assms
proof (induction "729 - n" arbitrary: n s)
  case 0
  then show ?case by simp
next
  case (Suc m)
  then have n: "n < 729" by linarith
  obtain s1 where s1: "insertRow (row_items n) s = Inr s1" and b1: "built (Suc n) 0 s1"
    using built_insertRow [OF Suc.prems(1) n] by blast
  have "m = 729 - Suc n" using Suc.hyps(2) by linarith
  then obtain s' where "for_each (\<lambda>i. insertRow (row_items i)) [Suc n..<729] s1 = Inr s'"
    and "built 729 0 s'"
    using Suc.hyps(1) [of "Suc n" s1] b1 n by auto
  then show ?case using s1 n by (simp add: upt_conv_Cons)
qed

lemma init_columns_fields:
  "row_count (fold init_column [0..<m] s) = row_count s \<and>
   printed (fold init_column [0..<m] s) = printed s \<and>
   (\<forall>i<m. up (fold init_column [0..<m] s) (Col i) = Col i \<and>
          down (fold init_column [0..<m] s) (Col i) = Col i \<and>
          right (fold init_column [0..<m] s) (Col i) = Col ((i + 1) mod 325) \<and>
          left (fold init_column [0..<m] s) (Col i) = Col ((324 + i) mod 325) \<and>
          col (fold init_column [0..<m] s) (Col i) = i) \<and>
   (\<forall>i. count (fold init_column [0..<m] s) i = (if i < m then 0 else count s i))"
proof (induction m)
  case 0
  show ?case by simp
next
  case (Suc m)
  then show ?case by (simp add: init_column_def less_Suc_eq)
qed

lemma linked_map_upt:
  assumes "\<forall>i<n. nxt (g i) = g (Suc i) \<and> prv (g (Suc i)) = g i"
  shows "linked nxt prv (map g [0..<Suc n])"
  using assms
proof (induction n)
  case 0
  show ?case by simp
next
  case (Suc n)
  then have "linked nxt prv (map g [0..<n] @ [g n])" by simp
  moreover have "linked nxt prv [g n, g (Suc n)]" using Suc.prems by simp
  ultimately have "linked nxt prv (map g [0..<n] @ g n # [g (Suc n)])"
    using linked_append [of nxt prv "map g [0..<n]" "g n" "[g (Suc n)]"] by simp
  then show ?case by simp
qed

lemma header_ring_init:
  assumes "\<forall>i<325. right s (Col i) = Col ((i + 1) mod 325) \<and> left s (Col i) = Col ((324 + i) mod 325)"
  shows "ring (right s) (left s) (Col 324) (map Col [0..<324])"
proof -
  have "\<forall>i<324. right s (Col i) = Col (Suc i) \<and> left s (Col (Suc i)) = Col i"
    using assms by simp
  then have l: "linked (right s) (left s) (map Col [0..<Suc 324])" by (rule linked_map_upt)
  have u1: "[0..<Suc 324] = 0 # [Suc 0..<Suc 324]" by (rule upt_conv_Cons) simp
  have u2: "[0..<Suc 324] = [0..<324] @ [324]" by (rule upt_Suc_append) simp
  have l1: "linked (right s) (left s) (Col 0 # map Col [Suc 0..<Suc 324])"
    using l unfolding u1 by simp
  have e: "Col 0 # map Col [Suc 0..<Suc 324] = map Col [0..<324] @ [Col 324]"
  proof -
    have "map Col (0 # [Suc 0..<Suc 324]) = map Col ([0..<324] @ [324])"
      using u1 u2 by simp
    then show ?thesis by (simp only: list.map map_append)
  qed
  have "right s (Col 324) = Col 0" and "left s (Col 0) = Col 324" using assms by simp_all
  then have "linked (right s) (left s) (Col 324 # (Col 0 # map Col [Suc 0..<Suc 324]))"
    using l1 by (simp only: linked.simps)
  then have "linked (right s) (left s) (Col 324 # map Col [0..<324] @ [Col 324])"
    unfolding e .
  moreover have "distinct (Col 324 # map Col [0..<324])" by (auto simp: distinct_map inj_on_def)
  ultimately show ?thesis by (simp add: ring_def)
qed

lemma Sudoku_built: "\<exists>s. Sudoku s0 = Inr s \<and> built 729 0 s"
proof -
  define s1 where "s1 = s0\<lparr>row_count := 0, count := (\<lambda>_. 0), printed := []\<rparr>"
  define s3 where "s3 = (fold init_column [0..<325] s1)\<lparr>root := 324\<rparr>"
  note f = init_columns_fields [of 325 s1]
  have "ring (right s3) (left s3) (Col 324) (map Col [0..<324])"
    by (rule header_ring_init) (use f in \<open>simp add: s3_def\<close>)
  moreover have "\<forall>c<324. ring (down s3) (up s3) (Col c) (map (cell_of c) (rows_upto 0 0 c))"
    using f by (simp add: s3_def ring_def rows_upto_def)
  moreover have "\<forall>c<324. count s3 c = int (length (rows_upto 0 0 c))"
    using f by (simp add: s3_def rows_upto_def s1_def)
  ultimately have "built 0 0 s3"
    using f by (simp add: built_def s3_def s1_def)
  then obtain s where "for_each (\<lambda>i. insertRow (row_items i)) [0..<729] s3 = Inr s" and "built 729 0 s"
    using built_rows [of 0 s3] by auto
  then show ?thesis by (auto simp: Sudoku_def s3_def s1_def Let_def)
qed


lemma rows_upto_full: "rows_upto 729 0 c = col_rows c"
  by (simp add: rows_upto_def col_rows_def)

lemma spec_columns_eq: "spec_columns i = row_items i"
proof -
  have "i div 9 = i div 9 div 9 * 9 + i div 9 mod 9" by simp
  moreover have "i div 9 div 9 = i div 81" by (simp add: div_mult2_eq [symmetric])
  ultimately have "i div 81 * 9 + i div 9 mod 9 = i div 9" by simp
  then show ?thesis by (simp add: spec_columns_def row_items_def Let_def)
qed

lemma filter_eq_distinct: "distinct xs \<Longrightarrow> i \<in> set xs \<Longrightarrow> filter (\<lambda>r. r = i) xs = [i]"
  by (induction xs) (auto simp: filter_empty_conv)

lemma distinct_col_rows: "distinct (col_rows c)"
  by (simp add: col_rows_def)

lemma in_row_cell_of [simp]: "in_row i (cell_of c r) \<longleftrightarrow> r = i"
  by (simp add: cell_of_def)

text \<open>
  Claim C4.  After construction, for every candidate \<open>i < 729\<close> and every
  \<open>k < 4\<close>, the cell \<^verbatim>\<open>cells[i][k]\<close> belongs to the \<open>k\<close>-th constraint
  column the specification names (\<open>row*9 + col\<close>, \<open>81 + row*9 + digit\<close>,
  \<open>162 + i mod 81\<close>, \<open>243 + (row/3)*27 + (col/3)*9 + digit\<close>), and among the
  members of that column's ring the cells of matrix row \<open>i\<close> are exactly that
  one cell.
\<close>

theorem row_links_four_columns:
  assumes "Sudoku s0 = Inr s" and "i < 729" and "k < 4"
  shows "col s (Cell i k) = spec_columns i ! k \<and> spec_columns i ! k < 324 \<and>
         (\<exists>xs. ring (down s) (up s) (Col (spec_columns i ! k)) xs \<and>
               filter (in_row i) xs = [Cell i k])"
proof -
  define c where "c = row_items i ! k"
  have b: "built 729 0 s" using Sudoku_built [of s0] assms(1) by auto
  have c324: "c < 324" and cdiv: "c div 81 = k"
    using row_items_nth [OF assms(2,3)] by (simp_all add: c_def)
  have "cell_fields s i k" using b assms(2,3) unfolding built_def by blast
  then have cl: "col s (Cell i k) = c" by (simp add: cell_fields_def c_def)
  have r: "ring (down s) (up s) (Col c) (map (cell_of c) (col_rows c))"
    using b c324 unfolding built_def rows_upto_full by blast
  have "in_col c i" unfolding in_col_def cdiv by (simp add: c_def)
  then have "i \<in> set (col_rows c)" using assms(2) by (simp add: col_rows_def)
  then have "filter (\<lambda>r. r = i) (col_rows c) = [i]"
    using filter_eq_distinct [OF distinct_col_rows] by blast
  then have "filter (in_row i) (map (cell_of c) (col_rows c)) = [Cell i k]"
    by (simp add: filter_map comp_def cell_of_def cdiv)
  then show ?thesis using cl c324 r unfolding spec_columns_eq c_def [symmetric] by blast
qed

lemma Sudoku_ok: "\<exists>s. Sudoku s0 = Inr s"
  using Sudoku_built by blast


theorem row_links_four_columns_witness:
  "\<exists>s. Sudoku blank = Inr s \<and> (100::nat) < 729 \<and> (2::nat) < 4 \<and>
       col s (Cell 100 2) = spec_columns 100 ! 2 \<and> spec_columns 100 ! 2 < 324 \<and>
       (\<exists>xs. ring (down s) (up s) (Col (spec_columns 100 ! 2)) xs \<and>
             filter (in_row 100) xs = [Cell 100 2])"
proof -
  obtain s where s: "Sudoku blank = Inr s" using Sudoku_ok by blast
  show ?thesis using s row_links_four_columns [OF s, of 100 2] by simp
qed


section \<open>Covering and uncovering a column\<close>

lemma unlink_cell_eq:
  "unlink_cell j s = s\<lparr>up := (up s)(down s j := up s j), down := (down s)(up s j := down s j),
      count := (count s)(col s j := count s (col s j) - 1)\<rparr>"
  by (simp add: unlink_cell_def Let_def)

lemma unlink_cell_frame [simp]:
  "right (unlink_cell j s) = right s" "left (unlink_cell j s) = left s"
  "col (unlink_cell j s) = col s" "row (unlink_cell j s) = row s"
  "root (unlink_cell j s) = root s" "solution (unlink_cell j s) = solution s"
  "printed (unlink_cell j s) = printed s" "row_count (unlink_cell j s) = row_count s"
  by (simp_all add: unlink_cell_eq)

lemma ring_member_linked:
  assumes "ring nxt prv h xs" and "x \<in> set xs"
  shows "nxt (prv x) = x" and "prv (nxt x) = x" and "nxt x \<noteq> x" and "prv x \<noteq> x"
    and "nxt x \<in> set (h # xs)" and "prv x \<in> set (h # xs)"
proof -
  obtain as bs where xs: "xs = as @ x # bs" using assms(2) by (meson split_list)
  obtain as' p where hp: "h # as = as' @ [p]"
    by (cases "h # as" rule: rev_cases) auto
  obtain q bs' where qb: "bs @ [h] = q # bs'"
    by (cases "bs @ [h]") auto
  have px: "prv x = p" and qx: "nxt x = q"
    using ring_mid [OF assms(1) [unfolded xs]] hp qb by simp_all
  have d: "distinct ((h # as) @ x # bs)" and l: "linked nxt prv ((h # as) @ x # bs @ [h])"
    using assms(1) by (simp_all add: ring_def xs)
  have l': "linked nxt prv (as' @ p # x # q # bs')" using l unfolding hp qb by simp
  then have "linked nxt prv (p # x # q # bs')"
    using linked_append [of nxt prv as' p "x # q # bs'"] by simp
  then show "nxt (prv x) = x" and "prv (nxt x) = x" by (simp_all add: px qx)
  have "p \<in> set (h # as)" unfolding hp by simp
  then show "prv x \<noteq> x" and "prv x \<in> set (h # xs)" using d by (auto simp: px xs)
  have "q \<in> set (bs @ [h])" unfolding qb by simp
  then show "nxt x \<noteq> x" and "nxt x \<in> set (h # xs)" using d by (auto simp: qx xs)
qed

lemma matrix_ok_filter: "matrix_ok s R \<Longrightarrow> c < 324 \<Longrightarrow> filter (in_col c) (R c) = R c"
  by (simp add: matrix_ok_def)

lemma matrix_ok_distinct: "matrix_ok s R \<Longrightarrow> c < 324 \<Longrightarrow> distinct (R c)"
  by (auto simp: matrix_ok_def ring_def distinct_map)

lemma unlink_cell_ok:
  assumes m: "matrix_ok s R" and r: "r < 729" and k: "k < 4"
    and mem: "r \<in> set (R (row_items r ! k))"
  shows "matrix_ok (unlink_cell (Cell r k) s) (R(row_items r ! k := removeAll r (R (row_items r ! k))))"
    and "relink_cell (Cell r k) (unlink_cell (Cell r k) s) = s"
    and "\<And>x d. d < 324 \<Longrightarrow> d \<noteq> row_items r ! k \<Longrightarrow> x \<in> set (Col d # map (cell_of d) (R d)) \<Longrightarrow>
           up (unlink_cell (Cell r k) s) x = up s x \<and> down (unlink_cell (Cell r k) s) x = down s x"
proof -
  define c where "c = row_items r ! k"
  define j where "j = Cell r k"
  define s' where "s' = unlink_cell j s"
  have c324: "c < 324" and cdiv: "c div 81 = k"
    using row_items_nth [OF r k] by (simp_all add: c_def)
  have jc: "j = cell_of c r" by (simp add: j_def cell_of_def cdiv)
  have rings: "\<And>d. d < 324 \<Longrightarrow> ring (down s) (up s) (Col d) (map (cell_of d) (R d))"
    and counts: "\<And>d. d < 324 \<Longrightarrow> count s d = int (length (R d))"
    and mems: "\<And>d x. d < 324 \<Longrightarrow> x \<in> set (R d) \<Longrightarrow> x < 729 \<and> in_col d x"
    using m by (simp_all add: matrix_ok_def)
  have "cell_fields s r k" using m r k by (simp add: matrix_ok_def)
  then have colj: "col s j = c" by (simp add: cell_fields_def j_def c_def)
  have s'eq: "s' = s\<lparr>up := (up s)(down s j := up s j), down := (down s)(up s j := down s j),
      count := (count s)(c := count s c - 1)\<rparr>"
    by (simp add: s'_def unlink_cell_eq colj)
  have dR: "distinct (R c)" by (rule matrix_ok_distinct [OF m c324])
  obtain as bs where Rc: "R c = as @ r # bs" using mem unfolding c_def [symmetric] by (meson split_list)
  have rem: "removeAll r (R c) = as @ bs" using dR unfolding Rc by (simp add: removeAll_id)
  have "length (removeAll r (R c)) = length as + length bs" by (simp only: rem length_append)
  moreover have "length (R c) = Suc (length as + length bs)" unfolding Rc by simp
  ultimately have lenrem: "int (length (removeAll r (R c))) = int (length (R c)) - 1" by simp
  have rc: "ring (down s) (up s) (Col c) (map (cell_of c) as @ j # map (cell_of c) bs)"
    using rings [OF c324] unfolding Rc jc by simp
  have jin: "j \<in> set (map (cell_of c) (R c))" unfolding Rc jc by simp
  note lk = ring_member_linked [OF rings [OF c324] jin]
  have ring_c: "ring (down s') (up s') (Col c) (map (cell_of c) (removeAll r (R c)))"
    using ring_remove [OF rc] by (simp add: s'eq rem)
  have frame: "up s' x = up s x \<and> down s' x = down s x"
    if d: "d < 324" and dc: "d \<noteq> c" and x: "x \<in> set (Col d # map (cell_of d) (R d))" for x d
  proof -
    have "x \<noteq> y" if "y \<in> set (Col c # map (cell_of c) (R c))" for y
    proof
      assume "x = y"
      then have "d = c"
        using column_nodes_disjoint [of x d "R d" c "R c"] x that
          matrix_ok_filter [OF m d] matrix_ok_filter [OF m c324] by simp
      then show False using dc by simp
    qed
    then have "x \<noteq> down s j" and "x \<noteq> up s j" using lk(5,6) by blast+
    then show ?thesis by (simp add: s'eq)
  qed
  have ring_other: "ring (down s') (up s') (Col d) (map (cell_of d) (R d))"
    if d: "d < 324" and dc: "d \<noteq> c" for d
    using ring_frame [OF rings [OF d]] frame [OF d dc] by blast
  have "matrix_ok s' (R(c := removeAll r (R c)))"
    unfolding matrix_ok_def
  proof (intro conjI allI impI ballI)
    show "col s' (Col d) = d" if "d < 325" for d using m that by (simp add: matrix_ok_def s'eq)
    show "cell_fields s' x y" if "x < 729" "y < 4" for x y
      using m that by (simp add: matrix_ok_def s'eq cell_fields_def)
    show "ring (down s') (up s') (Col d) (map (cell_of d) ((R(c := removeAll r (R c))) d))"
      if "d < 324" for d using ring_c ring_other [OF that] by (cases "d = c") simp_all
    show "count s' d = int (length ((R(c := removeAll r (R c))) d))" if "d < 324" for d
      using counts [OF that] counts [OF c324] lenrem by (cases "d = c") (simp_all add: s'eq)
    show "x < 729" if "d < 324" "x \<in> set ((R(c := removeAll r (R c))) d)" for d x
      using mems [of d x] that by (cases "d = c") (auto)
    show "in_col d x" if "d < 324" "x \<in> set ((R(c := removeAll r (R c))) d)" for d x
      using mems [of d x] that by (cases "d = c") (auto)
  qed
  then show "matrix_ok (unlink_cell (Cell r k) s) (R(row_items r ! k := removeAll r (R (row_items r ! k))))"
    by (simp add: s'_def j_def c_def)
  have "(up s)(down s j := j) = up s" and "(down s)(up s j := j) = down s"
    using lk(1,2) by (simp_all add: fun_upd_idem)
  then have "relink_cell j s' = s"
    using lk(1-4) by (simp add: relink_cell_def Let_def s'eq colj)
  then show "relink_cell (Cell r k) (unlink_cell (Cell r k) s) = s" by (simp add: s'_def j_def)
  show "up (unlink_cell (Cell r k) s) x = up s x \<and> down (unlink_cell (Cell r k) s) x = down s x"
    if "d < 324" "d \<noteq> row_items r ! k" "x \<in> set (Col d # map (cell_of d) (R d))" for x d
    using frame [of d x] that by (simp add: s'_def j_def c_def)
qed


lemma relink_cell_frame [simp]:
  "right (relink_cell j s) = right s" "left (relink_cell j s) = left s"
  "col (relink_cell j s) = col s" "row (relink_cell j s) = row s"
  "root (relink_cell j s) = root s" "solution (relink_cell j s) = solution s"
  "printed (relink_cell j s) = printed s" "row_count (relink_cell j s) = row_count s"
  by (simp_all add: relink_cell_def Let_def)

lemma family_cases:
  assumes "(k::nat) < 4"
  obtains "k = 0" | "k = 1" | "k = 2" | "k = 3"
  using assms by linarith

lemma cover_row_eq:
  assumes "\<forall>k<4. right t (Cell r k) = Cell r ((k + 1) mod 4)" and "c < 324"
  shows "cover_row (cell_of c r) (right t (cell_of c r)) t = Some (unlink_row c r t)"
proof -
  have "c div 81 < 4" using assms(2) by (simp add: less_mult_imp_div_less)
  then show ?thesis
  proof (cases rule: family_cases)
    case 1
    then show ?thesis using assms(1)
      by (simp add: cell_of_def unlink_row_def other_cells_def cover_row.simps;
          (simp add: numeral_2_eq_2)?)
  next
    case 2
    then show ?thesis using assms(1)
      by (simp add: cell_of_def unlink_row_def other_cells_def cover_row.simps;
          (simp add: numeral_2_eq_2)?)
  next
    case 3
    then show ?thesis using assms(1)
      by (simp add: cell_of_def unlink_row_def other_cells_def cover_row.simps;
          (simp add: numeral_2_eq_2)?)
  next
    case 4
    then show ?thesis using assms(1)
      by (simp add: cell_of_def unlink_row_def other_cells_def cover_row.simps;
          (simp add: numeral_2_eq_2)?)
  qed
qed

lemma uncover_row_eq:
  assumes "\<forall>k<4. left t (Cell r k) = Cell r ((k + 3) mod 4)" and "c < 324"
  shows "uncover_row (cell_of c r) (left t (cell_of c r)) t = Some (relink_row c r t)"
proof -
  have "c div 81 < 4" using assms(2) by (simp add: less_mult_imp_div_less)
  then show ?thesis
  proof (cases rule: family_cases)
    case 1
    then show ?thesis using assms(1)
      by (simp add: cell_of_def relink_row_def other_cells_def uncover_row.simps;
          (simp add: numeral_2_eq_2)?)
  next
    case 2
    then show ?thesis using assms(1)
      by (simp add: cell_of_def relink_row_def other_cells_def uncover_row.simps;
          (simp add: numeral_2_eq_2)?)
  next
    case 3
    then show ?thesis using assms(1)
      by (simp add: cell_of_def relink_row_def other_cells_def uncover_row.simps;
          (simp add: numeral_2_eq_2)?)
  next
    case 4
    then show ?thesis using assms(1)
      by (simp add: cell_of_def relink_row_def other_cells_def uncover_row.simps;
          (simp add: numeral_2_eq_2)?)
  qed
qed


lemma matrix_ok_cong: "\<forall>d<324. R d = R' d \<Longrightarrow> matrix_ok s R \<Longrightarrow> matrix_ok s R'"
  by (simp add: matrix_ok_def)

lemma unlink_three:
  assumes m: "matrix_ok t R" and r: "r < 729"
    and k: "k0 < 4" "k1 < 4" "k2 < 4" "k3 < 4" and d: "distinct [k0, k1, k2, k3]"
    and all: "\<forall>k<4. k \<in> {k0, k1, k2, k3}"
    and mem: "\<forall>k<4. r \<in> set (R (row_items r ! k))"
  defines "c \<equiv> row_items r ! k0"
  defines "t3 \<equiv> unlink_cell (Cell r k3) (unlink_cell (Cell r k2) (unlink_cell (Cell r k1) t))"
  shows "matrix_ok t3 (\<lambda>d. if d = c then R d else removeAll r (R d))"
    and "relink_cell (Cell r k1) (relink_cell (Cell r k2) (relink_cell (Cell r k3) t3)) = t"
    and "\<forall>x\<in>set (Col c # map (cell_of c) (R c)). up t3 x = up t x \<and> down t3 x = down t x"
proof -
  define c1 where "c1 = row_items r ! k1"
  define c2 where "c2 = row_items r ! k2"
  define c3 where "c3 = row_items r ! k3"
  define t1 where "t1 = unlink_cell (Cell r k1) t"
  define t2 where "t2 = unlink_cell (Cell r k2) t1"
  define R1 where "R1 = R(c1 := removeAll r (R c1))"
  define R2 where "R2 = R1(c2 := removeAll r (R1 c2))"
  define R3 where "R3 = R2(c3 := removeAll r (R2 c3))"
  have t3: "t3 = unlink_cell (Cell r k3) t2" by (simp add: t3_def t2_def t1_def)
  have cd: "c div 81 = k0" "c1 div 81 = k1" "c2 div 81 = k2" "c3 div 81 = k3"
    and cl: "c < 324" "c1 < 324" "c2 < 324" "c3 < 324"
    using row_items_nth [OF r] k by (simp_all add: c_def c1_def c2_def c3_def)
  have ne: "c \<noteq> c1" "c \<noteq> c2" "c \<noteq> c3" "c1 \<noteq> c2" "c1 \<noteq> c3" "c2 \<noteq> c3"
    using cd d by auto
  have m1: "matrix_ok t1 R1"
    using unlink_cell_ok(1) [OF m r k(2)] mem k(2) by (simp add: t1_def R1_def c1_def)
  have "r \<in> set (R1 c2)" using mem k(3) ne by (simp add: R1_def c2_def)
  then have mem2: "r \<in> set (R1 (row_items r ! k2))" by (simp add: c2_def)
  have m2: "matrix_ok t2 R2"
    using unlink_cell_ok(1) [OF m1 r k(3) mem2] by (simp add: t2_def R2_def c2_def)
  have "r \<in> set (R2 c3)" using mem k(4) ne by (simp add: R2_def R1_def c3_def)
  then have mem3: "r \<in> set (R2 (row_items r ! k3))" by (simp add: c3_def)
  have m3: "matrix_ok t3 R3"
    using unlink_cell_ok(1) [OF m2 r k(4) mem3] by (simp add: t3 R3_def c3_def)
  have "R3 e = (if e = c then R e else removeAll r (R e))" if e: "e < 324" for e
  proof (cases "e \<in> {c, c1, c2, c3}")
    case True
    then show ?thesis using ne by (auto simp: R3_def R2_def R1_def)
  next
    case False
    have "r \<notin> set (R e)"
    proof
      assume "r \<in> set (R e)"
      then have "in_col e r" using m e by (simp add: matrix_ok_def)
      moreover have "e div 81 \<in> {k0, k1, k2, k3}"
        using all e by (simp add: less_mult_imp_div_less)
      ultimately show False using False by (auto simp: in_col_def c_def c1_def c2_def c3_def)
    qed
    then show ?thesis using False by (simp add: R3_def R2_def R1_def)
  qed
  then show "matrix_ok t3 (\<lambda>d. if d = c then R d else removeAll r (R d))"
    using matrix_ok_cong [OF _ m3] by simp
  have "relink_cell (Cell r k3) t3 = t2"
    unfolding t3 by (rule unlink_cell_ok(2) [OF m2 r k(4) mem3])
  moreover have "relink_cell (Cell r k2) t2 = t1"
    unfolding t2_def by (rule unlink_cell_ok(2) [OF m1 r k(3) mem2])
  moreover have "relink_cell (Cell r k1) t1 = t"
    unfolding t1_def using unlink_cell_ok(2) [OF m r k(2)] mem k(2) by simp
  ultimately show "relink_cell (Cell r k1) (relink_cell (Cell r k2) (relink_cell (Cell r k3) t3)) = t"
    by simp
  show "\<forall>x\<in>set (Col c # map (cell_of c) (R c)). up t3 x = up t x \<and> down t3 x = down t x"
  proof
    fix x assume x: "x \<in> set (Col c # map (cell_of c) (R c))"
    have Rc: "R1 c = R c" "R2 c = R c" using ne by (simp_all add: R1_def R2_def)
    have "r \<in> set (R (row_items r ! k1))" using mem k(2) by simp
    then have "up t1 x = up t x \<and> down t1 x = down t x"
      using unlink_cell_ok(3) [OF m r k(2) _ cl(1), of x] ne x by (simp add: t1_def c1_def)
    moreover have "up t2 x = up t1 x \<and> down t2 x = down t1 x"
      using unlink_cell_ok(3) [OF m1 r k(3) mem2 cl(1), of x] ne x by (simp add: t2_def c2_def Rc)
    moreover have "up t3 x = up t2 x \<and> down t3 x = down t2 x"
      using unlink_cell_ok(3) [OF m2 r k(4) mem3 cl(1), of x] ne x by (simp add: t3 c3_def Rc)
    ultimately show "up t3 x = up t x \<and> down t3 x = down t x" by simp
  qed
qed

lemma unlink_row_ok:
  assumes m: "matrix_ok t R" and r: "r < 729" and c: "c < 324" and ic: "in_col c r"
    and mem: "\<forall>k<4. r \<in> set (R (row_items r ! k))"
  shows "matrix_ok (unlink_row c r t) (\<lambda>d. if d = c then R d else removeAll r (R d))"
    and "relink_row c r (unlink_row c r t) = t"
    and "\<forall>x\<in>set (Col c # map (cell_of c) (R c)).
           up (unlink_row c r t) x = up t x \<and> down (unlink_row c r t) x = down t x"
proof -
  have k0: "c div 81 < 4" using c by (simp add: less_mult_imp_div_less)
  have cc: "row_items r ! (c div 81) = c" using ic by (simp add: in_col_def)
  have a: "\<forall>k<4. k \<in> {c div 81, (c div 81 + 1) mod 4, (c div 81 + 2) mod 4, (c div 81 + 3) mod 4}"
  proof (intro allI impI)
    fix k :: nat assume k: "k < 4"
    from k0 show "k \<in> {c div 81, (c div 81 + 1) mod 4, (c div 81 + 2) mod 4, (c div 81 + 3) mod 4}"
    proof (cases rule: family_cases)
      case 1 from k show ?thesis unfolding 1 by (cases rule: family_cases) simp_all
    next
      case 2 from k show ?thesis unfolding 2 by (cases rule: family_cases) simp_all
    next
      case 3 from k show ?thesis unfolding 3 by (cases rule: family_cases) simp_all
    next
      case 4 from k show ?thesis unfolding 4 by (cases rule: family_cases) simp_all
    qed
  qed
  have e: "unlink_row c r t = unlink_cell (Cell r ((c div 81 + 3) mod 4))
     (unlink_cell (Cell r ((c div 81 + 2) mod 4)) (unlink_cell (Cell r ((c div 81 + 1) mod 4)) t))"
    by (simp add: unlink_row_def other_cells_def)
  have e': "\<And>u. relink_row c r u = relink_cell (Cell r ((c div 81 + 1) mod 4))
     (relink_cell (Cell r ((c div 81 + 2) mod 4)) (relink_cell (Cell r ((c div 81 + 3) mod 4)) u))"
    by (simp add: relink_row_def other_cells_def)
  have d: "distinct [c div 81, (c div 81 + 1) mod 4, (c div 81 + 2) mod 4, (c div 81 + 3) mod 4]"
    using k0 by (cases rule: family_cases) simp_all
  have l: "(c div 81 + 1) mod 4 < 4" "(c div 81 + 2) mod 4 < 4" "(c div 81 + 3) mod 4 < 4" by simp_all
  note u = unlink_three [OF m r k0 l d a mem, unfolded cc, folded e]
  show "matrix_ok (unlink_row c r t) (\<lambda>d. if d = c then R d else removeAll r (R d))" by (rule u(1))
  show "relink_row c r (unlink_row c r t) = t" unfolding e' by (rule u(2))
  show "\<forall>x\<in>set (Col c # map (cell_of c) (R c)).
           up (unlink_row c r t) x = up t x \<and> down (unlink_row c r t) x = down t x" by (rule u(3))
qed


lemma unlink_row_frame [simp]:
  "right (unlink_row c r s) = right s" "left (unlink_row c r s) = left s"
  "col (unlink_row c r s) = col s" "row (unlink_row c r s) = row s"
  "root (unlink_row c r s) = root s" "solution (unlink_row c r s) = solution s"
  "printed (unlink_row c r s) = printed s" "row_count (unlink_row c r s) = row_count s"
  by (simp_all add: unlink_row_def other_cells_def)

lemma cover_col_rows:
  assumes "matrix_ok t R" and "c < 324" and "R c = pre @ rest"
    and "\<forall>r\<in>set rest. \<forall>k<4. r \<in> set (R (row_items r ! k))"
  shows "cover_col (Col c) (hd (map (cell_of c) rest @ [Col c])) t
           = Some (fold (unlink_row c) rest t)
       \<and> matrix_ok (fold (unlink_row c) rest t)
           (\<lambda>d. if d = c then R d else filter (\<lambda>r. r \<notin> set rest) (R d))
       \<and> uncover_col (Col c) (last (Col c # map (cell_of c) (pre @ rest))) (fold (unlink_row c) rest t)
           = uncover_col (Col c) (last (Col c # map (cell_of c) pre)) t"
  using assms
proof (induction rest arbitrary: t R pre)
  case Nil
  have "(\<lambda>d. if d = c then R d else filter (\<lambda>r. r \<notin> set []) (R d)) = R"
    by (rule ext) simp
  then show ?case using Nil.prems(1) by (subst cover_col.simps) simp
next
  case (Cons r rest)
  define i where "i = cell_of c r"
  define t1 where "t1 = unlink_row c r t"
  define R1 where "R1 = (\<lambda>d. if d = c then R d else removeAll r (R d))"
  note m = Cons.prems(1) and c = Cons.prems(2) and Rc = Cons.prems(3)
  have "ring (down t) (up t) (Col c) (map (cell_of c) (R c))"
    using m c by (simp add: matrix_ok_def)
  then have ring_c: "ring (down t) (up t) (Col c) (map (cell_of c) pre @ i # map (cell_of c) rest)"
    unfolding Rc by (simp add: i_def)
  have rin: "r \<in> set (R c)" using Rc by simp
  then have r: "r < 729" and ic: "in_col c r" using m c by (simp_all add: matrix_ok_def)
  have mem: "\<forall>k<4. r \<in> set (R (row_items r ! k))" using Cons.prems(4) by simp
  have fields: "\<forall>k<4. cell_fields t r k" using m r by (simp add: matrix_ok_def)
  note u = unlink_row_ok [OF m r c ic mem, folded t1_def R1_def]
  have iin: "i \<in> set (Col c # map (cell_of c) (R c))" using rin by (simp add: i_def)
  have "down t1 i = down t i" using u(3) iin by blast
  then have di: "down t1 i = hd (map (cell_of c) rest @ [Col c])"
    using ring_mid(1) [OF ring_c] by simp
  have ui: "up t i = last (Col c # map (cell_of c) pre)"
    using ring_mid(2) [OF ring_c] by simp
  have cr: "cover_row i (right t i) t = Some t1"
    unfolding i_def t1_def using fields by (intro cover_row_eq [OF _ c]) (simp add: cell_fields_def)
  have fields1: "\<forall>k<4. cell_fields t1 r k" using u(1) r by (simp add: matrix_ok_def)
  have ur: "uncover_row i (left t1 i) t1 = Some t"
    using uncover_row_eq [of t1 r c] fields1 c u(2) by (simp add: cell_fields_def i_def t1_def)
  have d: "distinct (R c)" by (rule matrix_ok_distinct [OF m c])
  have rn: "r \<notin> set rest" using d Rc by simp
  have R1c: "R1 c = (pre @ [r]) @ rest" using Rc by (simp add: R1_def)
  have mem1: "\<forall>r'\<in>set rest. \<forall>k<4. r' \<in> set (R1 (row_items r' ! k))"
    using Cons.prems(4) rn by (auto simp: R1_def)
  note ih = Cons.IH [OF u(1) c R1c mem1]
  have ne: "i \<noteq> Col c" by (simp add: i_def cell_of_def)
  have R': "(\<lambda>d. if d = c then R1 d else filter (\<lambda>r. r \<notin> set rest) (R1 d))
      = (\<lambda>d. if d = c then R d else filter (\<lambda>x. x \<notin> set (r # rest)) (R d))"
    by (rule ext) (auto simp: R1_def removeAll_filter_not_eq intro: filter_cong)
  have "cover_col (Col c) i t = Some (fold (unlink_row c) rest t1)"
    using ih ne cr di by (subst cover_col.simps) simp
  moreover have "uncover_col (Col c) i t1 = uncover_col (Col c) (last (Col c # map (cell_of c) pre)) t"
    using ne ur ui by (subst uncover_col.simps) simp
  ultimately show ?case
    using ih unfolding R' by (simp add: i_def t1_def)
qed


lemma fold_unlink_row_frame [simp]:
  "right (fold (unlink_row c) rs s) = right s" "left (fold (unlink_row c) rs s) = left s"
  "col (fold (unlink_row c) rs s) = col s" "row (fold (unlink_row c) rs s) = row s"
  "root (fold (unlink_row c) rs s) = root s" "solution (fold (unlink_row c) rs s) = solution s"
  "printed (fold (unlink_row c) rs s) = printed s"
  "row_count (fold (unlink_row c) rs s) = row_count s"
  by (induction rs arbitrary: s; simp)+

lemma matrix_ok_ring:
  "matrix_ok s R \<Longrightarrow> c < 324 \<Longrightarrow> ring (down s) (up s) (Col c) (map (cell_of c) (R c))"
  by (simp add: matrix_ok_def)

lemma matrix_ok_count: "matrix_ok s R \<Longrightarrow> c < 324 \<Longrightarrow> count s c = int (length (R c))"
  by (simp add: matrix_ok_def)

lemma cover_uncover_matrix:
  assumes m: "matrix_ok s R" and c: "c < 324" and rl: "rows_linked R c"
    and la: "left s (Col c) = Col a" and rb: "right s (Col c) = Col b"
  defines "s' \<equiv> fold (unlink_row c) (R c) (unlink_header (Col c) s)"
  shows "cover c s = Some s'"
    and "matrix_ok s' (\<lambda>d. if d = c then R d else filter (\<lambda>r. r \<notin> set (R c)) (R d))"
    and "right s' = (right s)(Col a := Col b)" and "left s' = (left s)(Col b := Col a)"
    and "right s (Col a) = Col c \<Longrightarrow> left s (Col b) = Col c \<Longrightarrow> uncover c s' = Some s"
proof -
  define s1 where "s1 = unlink_header (Col c) s"
  have s1: "s1 = s\<lparr>left := (left s)(Col b := Col a), right := (right s)(Col a := Col b)\<rparr>"
    by (simp add: s1_def unlink_header_def Let_def la rb)
  have m1: "matrix_ok s1 R" using m by (simp add: matrix_ok_def s1 cell_fields_def)
  have Rc: "R c = [] @ R c" by simp
  have mem: "\<forall>r\<in>set (R c). \<forall>k<4. r \<in> set (R (row_items r ! k))"
    using rl by (simp add: rows_linked_def)
  have s'1: "s' = fold (unlink_row c) (R c) s1" by (simp add: s'_def s1_def)
  note cc = cover_col_rows [OF m1 c Rc mem, folded s'1]
  have rc: "ring (down s) (up s) (Col c) (map (cell_of c) (R c))"
    using m c by (simp add: matrix_ok_def)
  have "down s1 (Col c) = hd (map (cell_of c) (R c) @ [Col c])"
    using ring_head(1) [OF rc] by (simp add: s1)
  then show "cover c s = Some s'"
    using cc by (simp add: cover_def Let_def s1_def [symmetric])
  show m': "matrix_ok s' (\<lambda>d. if d = c then R d else filter (\<lambda>r. r \<notin> set (R c)) (R d))"
    using cc by simp
  show "right s' = (right s)(Col a := Col b)" and "left s' = (left s)(Col b := Col a)"
    by (simp_all add: s'1) (simp_all add: s1)
  have rc': "ring (down s') (up s') (Col c) (map (cell_of c) (R c))"
    using matrix_ok_ring [OF m' c] by simp
  have up': "up s' (Col c) = last (Col c # map (cell_of c) (R c))"
    using ring_head(2) [OF rc'] .
  have uc: "uncover_col (Col c) (up s' (Col c)) s' = Some s1"
    using cc unfolding up' by (simp add: uncover_col.simps [of "Col c" "Col c"])
  show "uncover c s' = Some s" if "right s (Col a) = Col c" and "left s (Col b) = Col c"
  proof -
    have r1: "right s1 (Col c) = Col b" using rb by (simp add: s1)
    have l2: "(left s1)(Col b := Col c) = left s"
      using that(2) by (simp add: s1 fun_upd_idem)
    have r2: "(right s1)(Col a := Col c) = right s"
      using that(1) by (simp add: s1 fun_upd_idem)
    have "relink_header (Col c) s1 = s1\<lparr>left := left s, right := right s\<rparr>"
      by (simp add: relink_header_def Let_def r1 l2 la r2)
    then have "relink_header (Col c) s1 = s" by (simp add: s1)
    then show ?thesis using uc by (simp add: uncover_def)
  qed
qed


lemma in_col_iff:
  assumes "r < 729" and "c < 324"
  shows "in_col c r \<longleftrightarrow> c \<in> set (row_items r)"
proof
  assume "in_col c r"
  moreover have "c div 81 < length (row_items r)" using assms(2) by (simp add: less_mult_imp_div_less)
  ultimately show "c \<in> set (row_items r)" unfolding in_col_def by (metis nth_mem)
next
  assume "c \<in> set (row_items r)"
  then obtain k where "k < 4" and "row_items r ! k = c" by (auto simp: in_set_conv_nth)
  then show "in_col c r" using row_items_nth(2) [OF assms(1), of k] by (auto simp: in_col_def)
qed

lemma col_rows_mem: "r \<in> set (col_rows c) \<longleftrightarrow> r < 729 \<and> in_col c r"
  by (auto simp: col_rows_def)

lemma distinct_live_cols: "distinct (live_cols D)"
  by (simp add: live_cols_def)

lemma set_live_cols: "set (live_cols D) = {c. c < 324 \<and> c \<notin> D}"
  by (auto simp: live_cols_def)

lemma live_cols_insert: "live_cols (insert c D) = removeAll c (live_cols D)"
  by (auto simp: live_cols_def removeAll_filter_not_eq intro: filter_cong)

lemma Inv_rows_linked:
  assumes "Inv s D R" and "c < 324" and "c \<notin> D"
  shows "rows_linked R c"
  unfolding rows_linked_def
proof (intro ballI allI impI)
  fix r k assume r: "r \<in> set (R c)" and k: "k < (4::nat)"
  have Rc: "R c = filter (alive D) (col_rows c)" using assms by (simp add: Inv_def)
  have al: "alive D r" and r729: "r < 729" using r unfolding Rc by (simp_all add: col_rows_mem)
  define d where "d = row_items r ! k"
  have d324: "d < 324" and dk: "d div 81 = k" using row_items_nth [OF r729 k] by (simp_all add: d_def)
  have "d \<in> set (row_items r)" using k by (simp add: d_def)
  then have "d \<notin> D" using al by (simp add: alive_def)
  then have "R d = filter (alive D) (col_rows d)" using assms(1) d324 by (simp add: Inv_def)
  moreover have "in_col d r" by (simp add: in_col_def dk) (simp add: d_def)
  ultimately show "r \<in> set (R (row_items r ! k))"
    using al r729 by (simp add: col_rows_mem d_def [symmetric])
qed

lemma unlink_header_frame [simp]:
  "up (unlink_header x s) = up s" "down (unlink_header x s) = down s"
  "col (unlink_header x s) = col s" "row (unlink_header x s) = row s"
  "count (unlink_header x s) = count s"
  "root (unlink_header x s) = root s" "solution (unlink_header x s) = solution s"
  "printed (unlink_header x s) = printed s" "row_count (unlink_header x s) = row_count s"
  by (simp_all add: unlink_header_def Let_def)

lemma cover_Inv:
  assumes inv: "Inv s D R" and c: "c < 324" and cD: "c \<notin> D"
  defines "s' \<equiv> fold (unlink_row c) (R c) (unlink_header (Col c) s)"
  defines "R' \<equiv> (\<lambda>d. if d = c then R d else filter (\<lambda>r. r \<notin> set (R c)) (R d))"
  shows "cover c s = Some s'" and "Inv s' (insert c D) R'" and "uncover c s' = Some s"
    and "count s' c = count s c"
proof -
  have m: "matrix_ok s R" using inv by (simp add: Inv_def)
  have hr: "ring (right s) (left s) (Col 324) (map Col (live_cols D))"
    using inv by (simp add: Inv_def)
  have cin: "c \<in> set (live_cols D)" using c cD by (simp add: set_live_cols)
  then have cin': "Col c \<in> set (map Col (live_cols D))" by simp
  note lk = ring_member_linked [OF hr cin']
  obtain a where la: "left s (Col c) = Col a" using lk(6) by auto
  obtain b where rb: "right s (Col c) = Col b" using lk(5) by auto
  note cu = cover_uncover_matrix [OF m c Inv_rows_linked [OF inv c cD] la rb, folded s'_def R'_def]
  show "cover c s = Some s'" by (rule cu(1))
  show "uncover c s' = Some s" using cu(5) lk(1,2) by (simp add: la rb)
  have "count s' c = int (length (R' c))" by (rule matrix_ok_count [OF cu(2) c])
  then show "count s' c = count s c" using matrix_ok_count [OF m c] by (simp add: R'_def)
  obtain as bs where lc: "live_cols D = as @ c # bs" using cin by (meson split_list)
  have lc': "live_cols (insert c D) = as @ bs"
    using distinct_live_cols [of D] unfolding live_cols_insert lc by (simp add: removeAll_id)
  have "ring (right s) (left s) (Col 324) (map Col as @ Col c # map Col bs)"
    using hr unfolding lc by simp
  then have hr': "ring (right s') (left s') (Col 324) (map Col (live_cols (insert c D)))"
    using ring_remove [of "right s" "left s" "Col 324" "map Col as" "Col c" "map Col bs"]
    by (simp add: cu(3,4) la rb lc')
  have R'live: "R' d = filter (alive (insert c D)) (col_rows d)"
    if d: "d < 324" and dD: "d \<notin> insert c D" for d
  proof -
    have Rd: "R d = filter (alive D) (col_rows d)" using inv d dD by (simp add: Inv_def)
    have Rc: "R c = filter (alive D) (col_rows c)" using inv c cD by (simp add: Inv_def)
    have "(alive D r \<and> r \<notin> set (R c)) = alive (insert c D) r" if "r \<in> set (col_rows d)" for r
    proof -
      have r: "r < 729" using that by (simp add: col_rows_mem)
      show ?thesis using in_col_iff [OF r c] r
        by (auto simp: Rc col_rows_mem alive_def)
    qed
    then have "filter (\<lambda>r. alive D r \<and> r \<notin> set (R c)) (col_rows d) = filter (alive (insert c D)) (col_rows d)"
      by (intro filter_cong) simp_all
    then show ?thesis using dD by (simp add: R'_def Rd conj_commute)
  qed
  show "Inv s' (insert c D) R'"
    unfolding Inv_def
  proof (intro conjI allI impI)
    show "root s' = 324" using inv by (simp add: s'_def Inv_def)
    show "insert c D \<subseteq> {0..<324}" using inv c by (simp add: Inv_def)
    show "matrix_ok s' R'" by (rule cu(2))
    show "ring (right s') (left s') (Col 324) (map Col (live_cols (insert c D)))" by (rule hr')
    show "R' d = filter (alive (insert c D)) (col_rows d)" if "d < 324" "d \<notin> insert c D" for d
      by (rule R'live [OF that])
  qed
qed

lemma walk_ring:
  assumes "ring nxt prv h (pre @ rest)" and "length rest < n"
  shows "walk n nxt h (hd (rest @ [h])) = rest"
  using assms
proof (induction rest arbitrary: pre n)
  case Nil
  then show ?case by (cases n) simp_all
next
  case (Cons x rest)
  obtain n' where n: "n = Suc n'" using Cons.prems(2) by (cases n) auto
  have "x \<noteq> h" using Cons.prems(1) by (auto simp: ring_def)
  moreover have "nxt x = hd (rest @ [h])" using ring_mid(1) [OF Cons.prems(1)] .
  moreover have "walk n' nxt h (hd (rest @ [h])) = rest"
    using Cons.IH [of "pre @ [x]" n'] Cons.prems n by simp
  ultimately show ?case by (simp add: n)
qed

lemma live_Inv:
  assumes "Inv s D R"
  shows "live s c \<longleftrightarrow> c < 324 \<and> c \<notin> D"
proof -
  have hr: "ring (right s) (left s) (Col 324) ([] @ map Col (live_cols D))"
    using assms by (simp add: Inv_def)
  have "length (live_cols D) \<le> 324" unfolding live_cols_def
    using length_filter_le [of "\<lambda>c. c \<notin> D" "[0..<324]"] by simp
  then have "length (map Col (live_cols D)) < 325" by simp
  then have "walk 325 (right s) (Col 324) (hd (map Col (live_cols D) @ [Col 324])) = map Col (live_cols D)"
    by (rule walk_ring [OF hr])
  moreover have "right s (Col 324) = hd (map Col (live_cols D) @ [Col 324])"
    using ring_head(1) [OF hr [simplified]] .
  moreover have "root s = 324" using assms by (simp add: Inv_def)
  ultimately show ?thesis by (auto simp: live_def set_live_cols)
qed

lemma Inv_constructed:
  assumes "Sudoku s0 = Inr s"
  shows "Inv s {} col_rows"
proof -
  have b: "built 729 0 s" using Sudoku_built [of s0] assms by auto
  have "matrix_ok s col_rows"
    using b unfolding built_def matrix_ok_def rows_upto_full by (auto simp: col_rows_mem)
  moreover have "live_cols {} = [0..<324]" by (simp add: live_cols_def)
  moreover have "filter (alive {}) (col_rows c) = col_rows c" for c by (simp add: alive_def)
  ultimately show ?thesis using b by (simp add: Inv_def built_def)
qed

lemma reachable_Inv: "reachable cs s \<Longrightarrow> (\<exists>D R. Inv s D R) \<and> stack_ok cs s"
proof (induction rule: reachable.induct)
  case (constructed s0 s)
  then show ?case using Inv_constructed by auto
next
  case (covered cs s c s')
  then obtain D R where inv: "Inv s D R" by blast
  have c: "c < 324" "c \<notin> D" using covered.hyps(2) live_Inv [OF inv] by simp_all
  note ci = cover_Inv [OF inv c]
  have "s' = fold (unlink_row c) (R c) (unlink_header (Col c) s)"
    using ci(1) covered.hyps(3) by simp
  then show ?case using ci(2,3) inv covered.IH by auto
next
  case (uncovered c cs s s')
  then show ?case by auto
qed

text \<open>
  Claim C1.  In every state reached from the constructed matrix by calls of
  \<^verbatim>\<open>cover\<close> on live columns and matching calls of \<^verbatim>\<open>uncover\<close>, for every
  live column \<open>c\<close>, \<^verbatim>\<open>cover(c)\<close> returns and \<^verbatim>\<open>uncover(c)\<close> then returns
  the state before \<^verbatim>\<open>cover(c)\<close>: every pointer and every count has its prior
  value.
\<close>

theorem cover_uncover_inverse:
  assumes "reachable cs s" and "live s c"
  shows "\<exists>s'. cover c s = Some s' \<and> uncover c s' = Some s"
proof -
  obtain D R where inv: "Inv s D R" using reachable_Inv [OF assms(1)] by blast
  have c: "c < 324" "c \<notin> D" using assms(2) live_Inv [OF inv] by simp_all
  show ?thesis using cover_Inv(1,3) [OF inv c] by blast
qed


lemma reachable_after_cover:
  assumes "Sudoku s0 = Inr s" and "c < 324"
  shows "\<exists>t. cover c s = Some t \<and> reachable [c] t \<and> (\<forall>d. live t d \<longleftrightarrow> d < 324 \<and> d \<noteq> c)"
proof -
  have inv: "Inv s {} col_rows" by (rule Inv_constructed [OF assms(1)])
  have cD: "c \<notin> {}" by simp
  note ci = cover_Inv [OF inv assms(2) cD]
  have "live s c" using live_Inv [OF inv] assms(2) by simp
  then have "reachable [c] (fold (unlink_row c) (col_rows c) (unlink_header (Col c) s))"
    using reachable.covered [OF reachable.constructed [OF assms(1)] _ ci(1)] by simp
  then show ?thesis using ci(1) live_Inv [OF ci(2)] by auto
qed

theorem cover_uncover_inverse_witness:
  "\<exists>s t. Sudoku blank = Inr s \<and> cover 5 s = Some t \<and> reachable [5] t \<and> live t 0 \<and>
         (\<exists>s'. cover 0 t = Some s' \<and> uncover 0 s' = Some t)"
proof -
  obtain s where s: "Sudoku blank = Inr s" using Sudoku_ok by blast
  obtain t where t: "cover 5 s = Some t" "reachable [5] t" "live t 0"
    using reachable_after_cover [OF s, of 5] by auto
  show ?thesis using s t cover_uncover_inverse [OF t(2,3)] by blast
qed

lemma other_cells_col:
  assumes "matrix_ok s R" and "r < 729" and "c < 324" and "j \<in> set (other_cells c r)"
  shows "col s j \<noteq> c"
proof -
  have k0: "c div 81 < 4" using assms(3) by (simp add: less_mult_imp_div_less)
  have "\<exists>k. j = Cell r k \<and> k < 4 \<and> k \<noteq> c div 81"
    using k0
  proof (cases rule: family_cases)
    case 1 then show ?thesis using assms(4) by (auto simp: other_cells_def)
  next
    case 2 then show ?thesis using assms(4) by (auto simp: other_cells_def)
  next
    case 3 then show ?thesis using assms(4) by (auto simp: other_cells_def)
  next
    case 4 then show ?thesis using assms(4) by (auto simp: other_cells_def)
  qed
  then obtain k where j: "j = Cell r k" and k: "k < 4" and kc: "k \<noteq> c div 81" by blast
  have "cell_fields s r k" using assms(1,2) k by (simp add: matrix_ok_def)
  then have "col s j = row_items r ! k" by (simp add: cell_fields_def j)
  then show ?thesis using row_items_nth(2) [OF assms(2) k] kc by auto
qed

text \<open>
  Claim C10.  In every reachable state and for every live column \<open>c\<close>,
  \<^verbatim>\<open>cover(c)\<close> returns; it unlinks the header and then, for the rows of the
  ring of \<open>c\<close>, the cells of the row other than the one in \<open>c\<close>; none of these
  cells belongs to column \<open>c\<close>, and the count of \<open>c\<close> is unchanged.
\<close>

theorem cover_keeps_own_count:
  assumes "reachable cs s" and "live s c"
  shows "\<exists>rows s'. ring (down s) (up s) (Col c) (map (cell_of c) rows) \<and>
           cover c s = Some s' \<and>
           s' = fold (unlink_row c) rows (unlink_header (Col c) s) \<and>
           (\<forall>r\<in>set rows. \<forall>j\<in>set (other_cells c r). col s j \<noteq> c) \<and>
           count s' c = count s c"
proof -
  obtain D R where inv: "Inv s D R" using reachable_Inv [OF assms(1)] by blast
  have c: "c < 324" "c \<notin> D" using assms(2) live_Inv [OF inv] by simp_all
  have m: "matrix_ok s R" using inv by (simp add: Inv_def)
  note ci = cover_Inv [OF inv c]
  have "\<forall>r\<in>set (R c). r < 729" using m c(1) by (simp add: matrix_ok_def)
  then have "\<forall>r\<in>set (R c). \<forall>j\<in>set (other_cells c r). col s j \<noteq> c"
    using other_cells_col [OF m _ c(1)] by blast
  then show ?thesis using matrix_ok_ring [OF m c(1)] ci(1,4) by blast
qed

theorem cover_keeps_own_count_witness:
  "\<exists>s t. Sudoku blank = Inr s \<and> cover 90 s = Some t \<and> reachable [90] t \<and> live t 7 \<and>
     (\<exists>rows s'. ring (down t) (up t) (Col 7) (map (cell_of 7) rows) \<and>
           cover 7 t = Some s' \<and>
           s' = fold (unlink_row 7) rows (unlink_header (Col 7) t) \<and>
           (\<forall>r\<in>set rows. \<forall>j\<in>set (other_cells 7 r). col t j \<noteq> 7) \<and>
           count s' 7 = count t 7)"
proof -
  obtain s where s: "Sudoku blank = Inr s" using Sudoku_ok by blast
  obtain t where t: "cover 90 s = Some t" "reachable [90] t" "live t 7"
    using reachable_after_cover [OF s, of 90] by auto
  show ?thesis using s t cover_keeps_own_count [OF t(2,3)] by blast
qed


section \<open>Pre-covering the clues\<close>

lemma same_frame_refl [simp]: "same_frame s s"
  by (simp add: same_frame_def)















lemma constructed_cols:
  assumes "Sudoku s0 = Inr s"
  shows "\<forall>r<729. \<forall>k<4. col s (Cell r k) = row_items r ! k"
proof -
  have "matrix_ok s col_rows" using Inv_constructed [OF assms] by (simp add: Inv_def)
  then show ?thesis by (simp add: matrix_ok_def cell_fields_def)
qed

section \<open>The size of the columns\<close>

lemma split9: "d < 9 \<Longrightarrow> (9 * m + d) div 9 = (m::nat)" "d < 9 \<Longrightarrow> (9 * m + d) mod 9 = (d::nat)"
  by simp_all

lemma split3: "d < 3 \<Longrightarrow> (3 * m + d) div 3 = (m::nat)" "d < 3 \<Longrightarrow> (3 * m + d) mod 3 = (d::nat)"
  by simp_all

lemma split81: "x < 81 \<Longrightarrow> (81 * m + x) div 81 = (m::nat)" "x < 81 \<Longrightarrow> (81 * m + x) mod 81 = (x::nat)"
  by simp_all

lemma split27: "x < 27 \<Longrightarrow> (27 * m + x) div 27 = (m::nat)" "x < 27 \<Longrightarrow> (27 * m + x) mod 27 = (x::nat)"
  by simp_all

text \<open>The candidate for digit \<open>d + 1\<close> in row \<open>a\<close> and column \<open>b\<close> of the grid, and its parts.\<close>

lemma cand_parts:
  assumes "a < 9" and "b < 9" and "d < 9"
  shows "(81 * a + 9 * b + d) div 81 = (a::nat)" and "(81 * a + 9 * b + d) div 9 mod 9 = b"
    and "(81 * a + 9 * b + d) mod 9 = d" and "(81 * a + 9 * b + d) div 9 = 9 * a + b"
    and "(81 * a + 9 * b + d) mod 81 = 9 * b + d" and "81 * a + 9 * b + d < 729"
proof -
  have x: "9 * b + d < 81" using assms by linarith
  have e: "81 * a + 9 * b + d = 81 * a + (9 * b + d)" by simp
  show "(81 * a + 9 * b + d) div 81 = a" unfolding e by (rule split81(1) [OF x])
  show "(81 * a + 9 * b + d) mod 81 = 9 * b + d" unfolding e by (rule split81(2) [OF x])
  have e9: "81 * a + 9 * b + d = 9 * (9 * a + b) + d" by simp
  show d9: "(81 * a + 9 * b + d) div 9 = 9 * a + b" unfolding e9 by (rule split9(1) [OF assms(3)])
  show "(81 * a + 9 * b + d) mod 9 = d" unfolding e9 by (rule split9(2) [OF assms(3)])
  show "(81 * a + 9 * b + d) div 9 mod 9 = b" unfolding d9 by (rule split9(2) [OF assms(2)])
  show "81 * a + 9 * b + d < 729" using assms by linarith
qed

lemma cand_decomp:
  fixes r :: nat
  assumes "r < 729"
  shows "r = 81 * (r div 81) + 9 * (r div 9 mod 9) + r mod 9"
    and "r div 81 < 9" and "r div 9 mod 9 < 9" and "r mod 9 < 9"
proof -
  have "r div 9 = 9 * (r div 9 div 9) + r div 9 mod 9" by simp
  moreover have "r div 9 div 9 = r div 81" by (simp add: div_mult2_eq [symmetric])
  moreover have "r = 9 * (r div 9) + r mod 9" by simp
  ultimately show "r = 81 * (r div 81) + 9 * (r div 9 mod 9) + r mod 9" by linarith
  show "r div 81 < 9" using assms by (simp add: less_mult_imp_div_less)
  show "r div 9 mod 9 < 9" and "r mod 9 < 9" by simp_all
qed

lemma row_items_cand:
  assumes "a < 9" and "b < 9" and "d < 9"
  shows "row_items (81 * a + 9 * b + d) =
     [9 * a + b, 81 + (9 * a + d), 162 + (9 * b + d), 243 + (27 * (a div 3) + 9 * (b div 3) + d)]"
  unfolding row_items_def Let_def cand_parts [OF assms] using assms by simp

lemma fibre_card:
  assumes "inj_on g {0..<9::nat}" and "\<And>r. r \<in> set (col_rows c) \<longleftrightarrow> r \<in> g ` {0..<9}"
  shows "length (col_rows c) = 9"
proof -
  have "set (col_rows c) = g ` {0..<9}" using assms(2) by blast
  then have "card (set (col_rows c)) = 9" using card_image [OF assms(1)] by simp
  then show ?thesis using distinct_card [OF distinct_col_rows] by simp
qed

lemma length_col_rows_cell:
  assumes "c < 81"
  shows "length (col_rows c) = 9"
proof (rule fibre_card [where g = "\<lambda>d. 9 * c + d"])
  show "inj_on (\<lambda>d. 9 * c + d) {0..<9}" by (simp add: inj_on_def)
  fix r
  have c0: "c div 81 = 0" using assms by simp
  show "r \<in> set (col_rows c) \<longleftrightarrow> r \<in> (\<lambda>d. 9 * c + d) ` {0..<9}"
  proof
    assume "r \<in> set (col_rows c)"
    then have r: "r < 729" and "row_items r ! 0 = c" by (simp_all add: col_rows_mem in_col_def c0)
    then have "r div 9 = c" by (simp add: row_items_eq)
    then have "r = 9 * c + r mod 9" by auto
    then show "r \<in> (\<lambda>d. 9 * c + d) ` {0..<9}" by (intro image_eqI [where x = "r mod 9"]) simp_all
  next
    assume "r \<in> (\<lambda>d. 9 * c + d) ` {0..<9}"
    then obtain d where "d \<in> {0..<9}" and r: "r = 9 * c + d" by blast
    then have d: "d < 9" by simp
    have "r div 9 = c" unfolding r by (rule split9(1) [OF d])
    moreover have "r < 729" using assms d r by linarith
    ultimately show "r \<in> set (col_rows c)" by (simp add: col_rows_mem in_col_def c0 row_items_eq)
  qed
qed


lemma fibre_via_cand:
  assumes k: "c div 81 = k" and k4: "k < 4"
    and into: "\<And>t. t < 9 \<Longrightarrow> \<exists>a b d. a < 9 \<and> b < 9 \<and> d < 9 \<and> g t = 81 * a + 9 * b + d \<and>
                 row_items (81 * a + 9 * b + d) ! k = c"
    and onto: "\<And>a b d. a < 9 \<Longrightarrow> b < 9 \<Longrightarrow> d < 9 \<Longrightarrow> row_items (81 * a + 9 * b + d) ! k = c
                 \<Longrightarrow> \<exists>t<9. g t = 81 * a + 9 * b + d"
    and inj: "inj_on g {0..<9::nat}"
  shows "length (col_rows c) = 9"
proof (rule fibre_card [OF inj])
  fix r
  show "r \<in> set (col_rows c) \<longleftrightarrow> r \<in> g ` {0..<9}"
  proof
    assume "r \<in> set (col_rows c)"
    then have r: "r < 729" and ic: "row_items r ! k = c" by (simp_all add: col_rows_mem in_col_def k)
    note dc = cand_decomp [OF r]
    have "row_items (81 * (r div 81) + 9 * (r div 9 mod 9) + r mod 9) ! k = c"
      using ic dc(1) by simp
    then obtain t where "t < 9" and "g t = 81 * (r div 81) + 9 * (r div 9 mod 9) + r mod 9"
      using onto [OF dc(2,3,4)] by blast
    then have "t \<in> {0..<9}" and "r = g t" using dc(1) by simp_all
    then show "r \<in> g ` {0..<9}" by blast
  next
    assume "r \<in> g ` {0..<9}"
    then obtain t where "t \<in> {0..<9}" and r: "r = g t" by blast
    then have "t < 9" by simp
    then obtain a b d where abd: "a < 9" "b < 9" "d < 9" and gt: "g t = 81 * a + 9 * b + d"
      and ri: "row_items (81 * a + 9 * b + d) ! k = c" using into by blast
    have "r < 729" unfolding r gt by (rule cand_parts(6) [OF abd])
    then show "r \<in> set (col_rows c)" using ri by (simp add: col_rows_mem in_col_def k r gt)
  qed
qed

lemma length_col_rows_row:
  assumes "q < 81"
  shows "length (col_rows (81 + q)) = 9"
proof (rule fibre_via_cand [where k = 1 and g = "\<lambda>b. 81 * (q div 9) + 9 * b + q mod 9"])
  have A: "q div 9 < 9" using assms by (simp add: less_mult_imp_div_less)
  have D: "q mod 9 < 9" by simp
  have q: "9 * (q div 9) + q mod 9 = q" by simp
  show "(81 + q) div 81 = 1" using assms by simp
  show "(1::nat) < 4" by simp
  show "\<exists>a b d. a < 9 \<and> b < 9 \<and> d < 9 \<and> 81 * (q div 9) + 9 * t + q mod 9 = 81 * a + 9 * b + d \<and>
         row_items (81 * a + 9 * b + d) ! 1 = 81 + q" if "t < 9" for t
    using A that D row_items_cand [OF A that D] q by (intro exI [of _ "q div 9"] exI [of _ t] exI [of _ "q mod 9"]) simp
  show "\<exists>t<9. 81 * (q div 9) + 9 * t + q mod 9 = 81 * a + 9 * b + d"
    if "a < 9" "b < 9" "d < 9" "row_items (81 * a + 9 * b + d) ! 1 = 81 + q" for a b d
  proof -
    have "q = 9 * a + d" using that by (simp add: row_items_cand)
    then have "q div 9 = a" "q mod 9 = d" using split9 [OF that(3), of a] by simp_all
    then show ?thesis using that(2) by auto
  qed
  show "inj_on (\<lambda>b. 81 * (q div 9) + 9 * b + q mod 9) {0..<9}" by (simp add: inj_on_def)
qed

lemma length_col_rows_col:
  assumes "q < 81"
  shows "length (col_rows (162 + q)) = 9"
proof (rule fibre_via_cand [where k = 2 and g = "\<lambda>a. 81 * a + 9 * (q div 9) + q mod 9"])
  have B: "q div 9 < 9" using assms by (simp add: less_mult_imp_div_less)
  have D: "q mod 9 < 9" by simp
  have q: "9 * (q div 9) + q mod 9 = q" by simp
  show "(162 + q) div 81 = 2" using assms by simp
  show "(2::nat) < 4" by simp
  show "\<exists>a b d. a < 9 \<and> b < 9 \<and> d < 9 \<and> 81 * t + 9 * (q div 9) + q mod 9 = 81 * a + 9 * b + d \<and>
         row_items (81 * a + 9 * b + d) ! 2 = 162 + q" if "t < 9" for t
    using B that D row_items_cand [OF that B D] q by (intro exI [of _ t] exI [of _ "q div 9"] exI [of _ "q mod 9"]) simp
  show "\<exists>t<9. 81 * t + 9 * (q div 9) + q mod 9 = 81 * a + 9 * b + d"
    if "a < 9" "b < 9" "d < 9" "row_items (81 * a + 9 * b + d) ! 2 = 162 + q" for a b d
  proof -
    have "q = 9 * b + d" using that by (simp add: row_items_cand)
    then have "q div 9 = b" "q mod 9 = d" using split9 [OF that(3), of b] by simp_all
    then show ?thesis using that(1) by auto
  qed
  show "inj_on (\<lambda>a. 81 * a + 9 * (q div 9) + q mod 9) {0..<9}" by (simp add: inj_on_def)
qed


lemma block_parts:
  assumes "A < 3" and "B < 3" and "d < 9"
  shows "(27 * A + 9 * B + d) div 27 = (A::nat)" and "(27 * A + 9 * B + d) div 9 mod 3 = B"
    and "(27 * A + 9 * B + d) mod 9 = d"
proof -
  have x: "9 * B + d < 27" using assms by linarith
  have e: "27 * A + 9 * B + d = 27 * A + (9 * B + d)" by simp
  show "(27 * A + 9 * B + d) div 27 = A" unfolding e by (rule split27(1) [OF x])
  have e9: "27 * A + 9 * B + d = 9 * (3 * A + B) + d" by simp
  have d9: "(27 * A + 9 * B + d) div 9 = 3 * A + B" unfolding e9 by (rule split9(1) [OF assms(3)])
  show "(27 * A + 9 * B + d) mod 9 = d" unfolding e9 by (rule split9(2) [OF assms(3)])
  show "(27 * A + 9 * B + d) div 9 mod 3 = B" unfolding d9 by (rule split3(2) [OF assms(2)])
qed

lemma block_decomp:
  fixes q :: nat
  assumes "q < 81"
  shows "q = 27 * (q div 27) + 9 * (q div 9 mod 3) + q mod 9"
    and "q div 27 < 3" and "q div 9 mod 3 < 3" and "q mod 9 < 9"
proof -
  have "q div 9 = 3 * (q div 9 div 3) + q div 9 mod 3" by simp
  moreover have "q div 9 div 3 = q div 27" by (simp add: div_mult2_eq [symmetric])
  moreover have "q = 9 * (q div 9) + q mod 9" by simp
  ultimately show "q = 27 * (q div 27) + 9 * (q div 9 mod 3) + q mod 9" by linarith
  show "q div 27 < 3" using assms by (simp add: less_mult_imp_div_less)
  show "q div 9 mod 3 < 3" and "q mod 9 < 9" by simp_all
qed

lemma third_parts:
  fixes a :: nat
  assumes "a < 9"
  shows "a = 3 * (a div 3) + a mod 3" and "a div 3 < 3" and "a mod 3 < 3"
  using assms by (simp_all add: less_mult_imp_div_less)

lemma length_col_rows_block:
  assumes "q < 81"
  shows "length (col_rows (243 + q)) = 9"
proof (rule fibre_via_cand [where k = 3 and
    g = "\<lambda>t. 81 * (3 * (q div 27) + t div 3) + 9 * (3 * (q div 9 mod 3) + t mod 3) + q mod 9"])
  note bd = block_decomp [OF assms]
  define A where "A = q div 27"
  define B where "B = q div 9 mod 3"
  define D where "D = q mod 9"
  have q: "q = 27 * A + 9 * B + D" and A: "A < 3" and B: "B < 3" and D: "D < 9"
    using bd by (simp_all add: A_def B_def D_def)
  show "(243 + q) div 81 = 3" using assms by simp
  show "(3::nat) < 4" by simp
  show "\<exists>a b d. a < 9 \<and> b < 9 \<and> d < 9 \<and>
          81 * (3 * (q div 27) + t div 3) + 9 * (3 * (q div 9 mod 3) + t mod 3) + q mod 9
            = 81 * a + 9 * b + d \<and>
          row_items (81 * a + 9 * b + d) ! 3 = 243 + q" if t: "t < 9" for t
  proof -
    have t3: "t div 3 < 3" "t mod 3 < 3" using third_parts [OF t] by simp_all
    have a: "3 * A + t div 3 < 9" and b: "3 * B + t mod 3 < 9" using A B t3 by linarith+
    have "(3 * A + t div 3) div 3 = A" and "(3 * B + t mod 3) div 3 = B"
      using split3(1) t3 by simp_all
    then have "row_items (81 * (3 * A + t div 3) + 9 * (3 * B + t mod 3) + D) ! 3 = 243 + q"
      using row_items_cand [OF a b D] q by simp
    then show ?thesis using a b D unfolding A_def [symmetric] B_def [symmetric] D_def [symmetric]
      by blast
  qed
  show "\<exists>t<9. 81 * (3 * (q div 27) + t div 3) + 9 * (3 * (q div 9 mod 3) + t mod 3) + q mod 9
           = 81 * a + 9 * b + d"
    if abd: "a < 9" "b < 9" "d < 9" and ri: "row_items (81 * a + 9 * b + d) ! 3 = 243 + q" for a b d
  proof -
    note ta = third_parts [OF abd(1)] and tb = third_parts [OF abd(2)]
    have qe: "q = 27 * (a div 3) + 9 * (b div 3) + d" using ri abd by (simp add: row_items_cand)
    have "A = a div 3" "B = b div 3" "D = d"
      unfolding A_def B_def D_def qe using block_parts [OF ta(2) tb(2) abd(3)] by simp_all
    moreover define t where "t = 3 * (a mod 3) + b mod 3"
    have "t div 3 = a mod 3" "t mod 3 = b mod 3" unfolding t_def using split3 [OF tb(3)] by simp_all
    moreover have "t < 9" unfolding t_def using ta(3) tb(3) by linarith
    ultimately have "t < 9 \<and> 81 * (3 * A + t div 3) + 9 * (3 * B + t mod 3) + D = 81 * a + 9 * b + d"
      using ta(1) tb(1) by simp
    then show ?thesis unfolding A_def B_def D_def by blast
  qed
  show "inj_on (\<lambda>t. 81 * (3 * (q div 27) + t div 3) + 9 * (3 * (q div 9 mod 3) + t mod 3) + q mod 9) {0..<9}"
  proof (rule inj_onI)
    fix t t' :: nat assume t: "t \<in> {0..<9}" "t' \<in> {0..<9}"
      and e: "81 * (3 * (q div 27) + t div 3) + 9 * (3 * (q div 9 mod 3) + t mod 3) + q mod 9
            = 81 * (3 * (q div 27) + t' div 3) + 9 * (3 * (q div 9 mod 3) + t' mod 3) + q mod 9"
    have t3: "t div 3 < 3" "t mod 3 < 3" "t' div 3 < 3" "t' mod 3 < 3"
      using t by (simp_all add: less_mult_imp_div_less)
    have a: "3 * A + t div 3 < 9" and b: "3 * B + t mod 3 < 9"
      and a': "3 * A + t' div 3 < 9" and b': "3 * B + t' mod 3 < 9" using A B t3 by linarith+
    have e': "81 * (3 * A + t div 3) + 9 * (3 * B + t mod 3) + D
            = 81 * (3 * A + t' div 3) + 9 * (3 * B + t' mod 3) + D"
      using e unfolding A_def B_def D_def .
    have "3 * A + t div 3 = 3 * A + t' div 3"
      using arg_cong [OF e', of "\<lambda>x. x div 81"]
      unfolding cand_parts(1) [OF a b D] cand_parts(1) [OF a' b' D] .
    moreover have "3 * B + t mod 3 = 3 * B + t' mod 3"
      using arg_cong [OF e', of "\<lambda>x. x div 9 mod 9"]
      unfolding cand_parts(2) [OF a b D] cand_parts(2) [OF a' b' D] .
    ultimately have "t div 3 = t' div 3" "t mod 3 = t' mod 3" by simp_all
    then show "t = t'" by (metis div_mult_mod_eq)
  qed
qed

lemma length_col_rows:
  assumes "c < 324"
  shows "length (col_rows c) = 9"
proof -
  have "c div 81 < 4" using assms by (simp add: less_mult_imp_div_less)
  then show ?thesis
  proof (cases rule: family_cases)
    case 1
    then have "c < 81" using assms by (simp add: div_eq_0_iff)
    then show ?thesis by (rule length_col_rows_cell)
  next
    case 2
    then have "c = 81 + c mod 81" and "c mod 81 < 81" using div_mult_mod_eq [of c 81] by simp_all
    then show ?thesis using length_col_rows_row by metis
  next
    case 3
    then have "c = 162 + c mod 81" and "c mod 81 < 81" using div_mult_mod_eq [of c 81] by simp_all
    then show ?thesis using length_col_rows_col by metis
  next
    case 4
    then have "c = 243 + c mod 81" and "c mod 81 < 81" using div_mult_mod_eq [of c 81] by simp_all
    then show ?thesis using length_col_rows_block by metis
  qed
qed


lemma distinct_row_items:
  assumes "r < 729"
  shows "distinct (row_items r)"
proof -
  have "row_items r ! i \<noteq> row_items r ! j" if "i < 4" "j < 4" "i \<noteq> j" for i j
    using row_items_nth(2) [OF assms that(1)] row_items_nth(2) [OF assms that(2)] that(3) by auto
  then show ?thesis by (simp add: distinct_conv_nth)
qed

text \<open>
  Claim C5.  After construction, the four cells of every candidate row lie in
  four pairwise distinct constraint columns, and the ring of every one of the
  324 constraint columns has exactly 9 members, all of them cells of that
  column, and its count is 9.
\<close>

theorem construction_coverage:
  assumes "Sudoku s0 = Inr s"
  shows "(\<forall>r<729. distinct (map (\<lambda>k. col s (Cell r k)) [0..<4]) \<and>
                 (\<forall>k<4. col s (Cell r k) < 324)) \<and>
         (\<forall>c<324. \<exists>xs. ring (down s) (up s) (Col c) xs \<and> length xs = 9 \<and>
                 (\<forall>x\<in>set xs. \<exists>r k. x = Cell r k \<and> col s x = c) \<and> count s c = 9)"
proof (intro conjI allI impI)
  have m: "matrix_ok s col_rows" using Inv_constructed [OF assms] by (simp add: Inv_def)
  note cols = constructed_cols [OF assms]
  fix r :: nat assume r: "r < 729"
  have "map (\<lambda>k. col s (Cell r k)) [0..<4] = map ((!) (row_items r)) [0..<length (row_items r)]"
    using cols r by simp
  then have "map (\<lambda>k. col s (Cell r k)) [0..<4] = row_items r" by (simp only: map_nth)
  then show "distinct (map (\<lambda>k. col s (Cell r k)) [0..<4])" using distinct_row_items [OF r] by simp
  show "col s (Cell r k) < 324" if "k < 4" for k
    using cols r that row_items_nth(1) [OF r that] by simp
next
  have m: "matrix_ok s col_rows" using Inv_constructed [OF assms] by (simp add: Inv_def)
  note cols = constructed_cols [OF assms]
  fix c :: nat assume c: "c < 324"
  have k: "c div 81 < 4" using c by (simp add: less_mult_imp_div_less)
  have "\<exists>r k. x = Cell r k \<and> col s x = c" if xin: "x \<in> set (map (cell_of c) (col_rows c))" for x
  proof -
    obtain r where r: "r < 729" "in_col c r" and x: "x = Cell r (c div 81)"
      using xin by (auto simp: col_rows_mem cell_of_def)
    have "col s x = c" using cols r k by (simp add: x in_col_def)
    then show ?thesis using x by blast
  qed
  then show "\<exists>xs. ring (down s) (up s) (Col c) xs \<and> length xs = 9 \<and>
                 (\<forall>x\<in>set xs. \<exists>r k. x = Cell r k \<and> col s x = c) \<and> count s c = 9"
    using matrix_ok_ring [OF m c] matrix_ok_count [OF m c] length_col_rows [OF c]
    by (intro exI [of _ "map (cell_of c) (col_rows c)"]) simp
qed

theorem construction_coverage_witness:
  "\<exists>s. Sudoku blank = Inr s \<and>
     (\<forall>r<729. distinct (map (\<lambda>k. col s (Cell r k)) [0..<4]) \<and>
                 (\<forall>k<4. col s (Cell r k) < 324)) \<and>
     (\<forall>c<324. \<exists>xs. ring (down s) (up s) (Col c) xs \<and> length xs = 9 \<and>
                 (\<forall>x\<in>set xs. \<exists>r k. x = Cell r k \<and> col s x = c) \<and> count s c = 9)"
proof -
  obtain s where s: "Sudoku blank = Inr s" using Sudoku_ok by blast
  show ?thesis using s construction_coverage [OF s] by blast
qed


section \<open>The scan of the header ring\<close>

lemma choose_column_path:
  assumes "path (right s) x hs (Col (root s))"
  shows "choose_column x c s = Some (scan_min (\<lambda>x. count s (col s x)) c hs)"
  using assms
proof (induction hs arbitrary: x c)
  case Nil
  then show ?case by (subst choose_column.simps) simp
next
  case (Cons y ys)
  then have x: "x = y" "y \<noteq> Col (root s)" and p: "path (right s) (right s y) ys (Col (root s))"
    by simp_all
  show ?case using x Cons.IH [OF p] by (subst choose_column.simps) simp
qed

lemma choose_column_returns:
  assumes "choose_column x c s = Some y"
  shows "\<exists>hs. path (right s) x hs (Col (root s))"
proof (rule choose_column.raw_induct
    [where P = "\<lambda>x c s y. \<exists>hs. path (right s) x hs (Col (root s))", OF _ assms])
  fix f x c s y
  assume ih: "\<And>x c s y. f x c s = Some y \<Longrightarrow> \<exists>hs. path (right s) x hs (Col (root s))"
    and e: "(if x = Col (root s) then Some c
             else f (right s x) (if count s (col s x) < count s (col s c) then x else c) s) = Some y"
  show "\<exists>hs. path (right s) x hs (Col (root s))"
  proof (cases "x = Col (root s)")
    case True
    then have "path (right s) x [] (Col (root s))" by simp
    then show ?thesis by blast
  next
    case False
    then have "f (right s x) (if count s (col s x) < count s (col s c) then x else c) s = Some y"
      using e by simp
    from ih [OF this] obtain hs where "path (right s) (right s x) hs (Col (root s))" by blast
    then have "path (right s) x (x # hs) (Col (root s))" using False by simp
    then show ?thesis by blast
  qed
qed

lemma path_unique: "path nxt x xs h \<Longrightarrow> path nxt x ys h \<Longrightarrow> xs = ys"
proof (induction xs arbitrary: x ys)
  case Nil
  then show ?case by (cases ys) auto
next
  case (Cons a xs)
  then show ?case by (cases ys) auto
qed

lemma first_min_unique:
  assumes e: "pre @ c # post = pre' @ c' # post'"
    and l: "\<forall>y\<in>set pre. f c < f y" and m: "\<forall>y\<in>set post. f c \<le> (f y :: int)"
    and l': "\<forall>y\<in>set pre'. f c' < f y" and m': "\<forall>y\<in>set post'. f c' \<le> f y"
  shows "c = c'"
proof -
  have cc': "f c \<le> f c'"
  proof -
    have "c' \<in> set (pre @ c # post)" unfolding e by simp
    then show ?thesis using l m by auto
  qed
  have c'c: "f c' \<le> f c"
  proof -
    have "c \<in> set (pre' @ c' # post')" unfolding e [symmetric] by simp
    then show ?thesis using l' m' by auto
  qed
  consider "length pre < length pre'" | "length pre' < length pre" | "length pre = length pre'"
    by linarith
  then show ?thesis
  proof cases
    case 1
    have "(pre @ c # post) ! length pre = c" by simp
    moreover have "(pre' @ c' # post') ! length pre = pre' ! length pre" using 1 by (simp add: nth_append)
    ultimately have "c \<in> set pre'" using e 1 by (metis nth_mem)
    then show ?thesis using l' cc' by force
  next
    case 2
    have "(pre' @ c' # post') ! length pre' = c'" by simp
    moreover have "(pre @ c # post) ! length pre' = pre ! length pre'" using 2 by (simp add: nth_append)
    ultimately have "c' \<in> set pre" using e 2 by (metis nth_mem)
    then show ?thesis using l c'c by force
  next
    case 3
    then show ?thesis using e by simp
  qed
qed

lemma ring_path:
  assumes "ring nxt prv h xs"
  shows "path nxt (nxt h) xs h"
proof -
  have "ring nxt prv h (pre @ xs) \<Longrightarrow> path nxt (hd (xs @ [h])) xs h" for pre
  proof (induction xs arbitrary: pre)
    case Nil
    then show ?case by simp
  next
    case (Cons x xs)
    have r: "ring nxt prv h ((pre @ [x]) @ xs)" using Cons.prems by simp
    have "x \<noteq> h" using Cons.prems by (auto simp: ring_def)
    moreover have "nxt x = hd (xs @ [h])" using ring_mid(1) [OF Cons.prems] .
    ultimately show ?case using Cons.IH [OF r] by simp
  qed
  from this [of "[]"] assms show ?thesis using ring_head(1) [OF assms] by simp
qed

text \<open>
  Claim C7.  At a step of \<^verbatim>\<open>search\<close> where \<^verbatim>\<open>root->right != root\<close>, in any state
  of the matrix: the scan of lines 206--212 returns the column \<open>c\<close> if and only
  if the walk along \<^verbatim>\<open>right\<close> from \<^verbatim>\<open>root->right\<close> comes back to the root, \<open>c\<close> is
  met on it, every column met before \<open>c\<close> has a strictly greater count, and
  every column met after \<open>c\<close> has a count greater than or equal to that of \<open>c\<close>.
  So the chosen column has the least count of the columns of the header ring,
  and among the columns of least count it is the first one met.  Only the
  \<^verbatim>\<open>right\<close> pointers of the headers are read.
\<close>

theorem choose_column_minimum:
  assumes "right s (Col (root s)) \<noteq> Col (root s)"
  shows "choose_column (right s (Col (root s))) (right s (Col (root s))) s = Some c \<longleftrightarrow>
         (\<exists>pre post. path (right s) (right s (Col (root s))) (pre @ c # post) (Col (root s)) \<and>
            (\<forall>y\<in>set pre. count s (col s c) < count s (col s y)) \<and>
            (\<forall>y\<in>set post. count s (col s c) \<le> count s (col s y)))"
proof -
  define f where "f = (\<lambda>x. count s (col s x))"
  define x where "x = right s (Col (root s))"
  have first: "\<exists>t. hs = x # t \<and> choose_column x x s = Some (scan_min f x t)"
    if p: "path (right s) x hs (Col (root s))" for hs
  proof -
    obtain t where hs: "hs = x # t" using p assms unfolding x_def by (cases hs) auto
    have "choose_column x x s = Some (scan_min f x hs)"
      unfolding f_def by (rule choose_column_path [OF p])
    then show ?thesis using hs by simp
  qed
  have "choose_column x x s = Some c \<longleftrightarrow>
         (\<exists>pre post. path (right s) x (pre @ c # post) (Col (root s)) \<and>
            (\<forall>y\<in>set pre. f c < f y) \<and> (\<forall>y\<in>set post. f c \<le> f y))"
  proof
    assume ch: "choose_column x x s = Some c"
    obtain hs where p: "path (right s) x hs (Col (root s))"
      using choose_column_returns [OF ch] by blast
    obtain t where hs: "hs = x # t" and ch': "choose_column x x s = Some (scan_min f x t)"
      using first [OF p] by blast
    have c: "c = scan_min f x t" using ch ch' by simp
    obtain pre post where e: "x # t = pre @ c # post" and l: "\<forall>y\<in>set pre. f c < f y"
      using scan_min_first [of x t f] unfolding c by blast
    have "\<forall>y\<in>set post. f c \<le> f y"
    proof
      fix y assume "y \<in> set post"
      then have "y \<in> set (x # t)" unfolding e by simp
      then show "f c \<le> f y" unfolding c by (rule scan_min_le)
    qed
    then show "\<exists>pre post. path (right s) x (pre @ c # post) (Col (root s)) \<and>
            (\<forall>y\<in>set pre. f c < f y) \<and> (\<forall>y\<in>set post. f c \<le> f y)"
      using p l unfolding hs e by blast
  next
    assume "\<exists>pre post. path (right s) x (pre @ c # post) (Col (root s)) \<and>
            (\<forall>y\<in>set pre. f c < f y) \<and> (\<forall>y\<in>set post. f c \<le> f y)"
    then obtain pre post where p: "path (right s) x (pre @ c # post) (Col (root s))"
      and l: "\<forall>y\<in>set pre. f c < f y" and m: "\<forall>y\<in>set post. f c \<le> f y" by blast
    obtain t where hs: "pre @ c # post = x # t" and ch: "choose_column x x s = Some (scan_min f x t)"
      using first [OF p] by blast
    obtain pre' post' where e: "x # t = pre' @ scan_min f x t # post'"
      and l': "\<forall>y\<in>set pre'. f (scan_min f x t) < f y"
      using scan_min_first [of x t f] by blast
    have m': "\<forall>y\<in>set post'. f (scan_min f x t) \<le> f y"
    proof
      fix y assume "y \<in> set post'"
      then have "y \<in> set (x # t)" unfolding e by simp
      then show "f (scan_min f x t) \<le> f y" by (rule scan_min_le)
    qed
    have "c = scan_min f x t"
      by (rule first_min_unique [OF _ l m l' m']) (simp only: hs e)
    then show "choose_column x x s = Some c" using ch by simp
  qed
  then show ?thesis unfolding f_def x_def .
qed

theorem choose_column_minimum_witness:
  "\<exists>s. Sudoku blank = Inr s \<and> right s (Col (root s)) \<noteq> Col (root s) \<and>
       choose_column (right s (Col (root s))) (right s (Col (root s))) s = Some (Col 0)"
proof -
  obtain s where s: "Sudoku blank = Inr s" and b: "built 729 0 s" using Sudoku_built by blast
  have root: "root s = 324" and colh: "\<forall>c<325. col s (Col c) = c"
    and ring: "ring (right s) (left s) (Col 324) (map Col [0..<324])"
    and cnt: "\<forall>c<324. count s c = int (length (col_rows c))"
    using b unfolding built_def rows_upto_full by blast+
  have nine: "count s (col s (Col c)) = 9" if "c < 324" for c
    using that colh cnt length_col_rows [of c] by simp
  have p: "path (right s) (right s (Col 324)) (map Col [0..<324]) (Col 324)" by (rule ring_path [OF ring])
  have e: "map Col [0..<324] = [] @ Col 0 # map Col [1..<324]" by (simp add: upt_conv_Cons)
  have r: "right s (Col 324) = Col 0" using ring_head(1) [OF ring] by (simp add: upt_conv_Cons)
  have ne: "right s (Col (root s)) \<noteq> Col (root s)" unfolding root r by simp
  have "\<exists>pre post. path (right s) (right s (Col (root s))) (pre @ Col 0 # post) (Col (root s)) \<and>
            (\<forall>y\<in>set pre. count s (col s (Col 0)) < count s (col s y)) \<and>
            (\<forall>y\<in>set post. count s (col s (Col 0)) \<le> count s (col s y))"
  proof (intro exI conjI)
    show "path (right s) (right s (Col (root s))) ([] @ Col 0 # map Col [1..<324]) (Col (root s))"
      using p unfolding root e .
    show "\<forall>y\<in>set []. count s (col s (Col 0)) < count s (col s y)" by simp
    show "\<forall>y\<in>set (map Col [1..<324]). count s (col s (Col 0)) \<le> count s (col s y)"
      using nine by auto
  qed
  then have "choose_column (right s (Col (root s))) (right s (Col (root s))) s = Some (Col 0)"
    using choose_column_minimum [OF ne, of "Col 0"] by simp
  then show ?thesis using s ne by blast
qed


section \<open>Termination of the loops\<close>


lemma node_Col [simp]:
  "col_node c (Col c') \<longleftrightarrow> c' = c" "below c r (Col c') \<longleftrightarrow> c' = c" "above c r (Col c') \<longleftrightarrow> c' = c"
  by (auto simp: col_node_def below_def above_def cell_of_def)




















lemma unlink_row_io [simp]:
  "solution (unlink_row c r s) = solution s" "printed (unlink_row c r s) = printed s"
  by (simp_all add: unlink_row_def other_cells_def)

lemma relink_row_io [simp]:
  "solution (relink_row c r s) = solution s" "printed (relink_row c r s) = printed s"
  by (simp_all add: relink_row_def other_cells_def)











lemma relink_header_io [simp]:
  "solution (relink_header x s) = solution s" "printed (relink_header x s) = printed s"
  by (simp_all add: relink_header_def Let_def)


























section \<open>Search on the set of covered columns\<close>

lemma with_io_fields [simp]:
  "up (with_io x y s) = up s" "down (with_io x y s) = down s" "left (with_io x y s) = left s"
  "right (with_io x y s) = right s" "col (with_io x y s) = col s" "row (with_io x y s) = row s"
  "count (with_io x y s) = count s" "root (with_io x y s) = root s"
  "row_count (with_io x y s) = row_count s"
  "solution (with_io x y s) = x" "printed (with_io x y s) = y"
  by (simp_all add: with_io_def)

lemma with_io_with_io [simp]: "with_io x y (with_io x' y' s) = with_io x y s"
  by (simp add: with_io_def)

lemma with_io_same [simp]: "with_io (solution s) (printed s) s = s"
  by (simp add: with_io_def)

lemma Inv_with_io: "Inv s D R \<Longrightarrow> Inv (with_io x y s) D R"
  by (simp add: Inv_def matrix_ok_def cell_fields_def)

lemma unlink_cell_with_io: "unlink_cell j (with_io x y s) = with_io x y (unlink_cell j s)"
  by (simp add: unlink_cell_eq with_io_def)

lemma unlink_row_with_io: "unlink_row c r (with_io x y s) = with_io x y (unlink_row c r s)"
  by (simp add: unlink_row_def other_cells_def unlink_cell_with_io)

lemma fold_unlink_row_with_io:
  "fold (unlink_row c) rs (with_io x y s) = with_io x y (fold (unlink_row c) rs s)"
  by (induction rs arbitrary: s) (simp_all add: unlink_row_with_io)

lemma unlink_header_with_io: "unlink_header a (with_io x y s) = with_io x y (unlink_header a s)"
  by (simp add: unlink_header_def Let_def with_io_def)

text \<open>One call of \<^verbatim>\<open>cover\<close> on a live column, with what the matching \<^verbatim>\<open>uncover\<close> does.\<close>

lemma cover_step:
  assumes inv: "Inv s D R" and c: "c < 324" and cD: "c \<notin> D"
  shows "\<exists>s' R'. cover c s = Some s' \<and> Inv s' (insert c D) R' \<and>
           R' c = filter (alive D) (col_rows c) \<and>
           solution s' = solution s \<and> printed s' = printed s \<and>
           (\<forall>x y. uncover c (with_io x y s') = Some (with_io x y s))"
proof -
  define s' where "s' = fold (unlink_row c) (R c) (unlink_header (Col c) s)"
  define R' where "R' = (\<lambda>d. if d = c then R d else filter (\<lambda>r. r \<notin> set (R c)) (R d))"
  note ci = cover_Inv [OF inv c cD, folded s'_def R'_def]
  have Rc: "R' c = filter (alive D) (col_rows c)" using inv c cD by (simp add: R'_def Inv_def)
  have "uncover c (with_io x y s') = Some (with_io x y s)" for x y
  proof -
    have "with_io x y s' = fold (unlink_row c) (R c) (unlink_header (Col c) (with_io x y s))"
      by (simp add: s'_def fold_unlink_row_with_io unlink_header_with_io)
    then show ?thesis using cover_Inv(3) [OF Inv_with_io [OF inv] c cD, of x y] by simp
  qed
  moreover have "solution s' = solution s" "printed s' = printed s" by (simp_all add: s'_def)
  ultimately show ?thesis using ci(1,2) Rc by blast
qed


lemma lift_io_simps [simp]:
  "lift_io s None = None" "lift_io s (Some (Inl e)) = Some (Inl e)"
  "lift_io s (Some (Inr so)) = Some (Inr (with_io (fst so) (snd so) s))"
  by (simp_all add: lift_io_def)

lemma lift_io_with_io [simp]: "lift_io (with_io x y s) = lift_io s"
  by (rule ext) (simp add: lift_io_def map_sum_def split: option.splits sum.splits)

lemma Inv_cell:
  assumes "Inv s D R" and "r < 729" and "k < 4"
  shows "col s (Cell r k) = row_items r ! k" and "row s (Cell r k) = int r"
    and "right s (Cell r k) = Cell r ((k + 1) mod 4)" and "left s (Cell r k) = Cell r ((k + 3) mod 4)"
  using assms unfolding Inv_def matrix_ok_def cell_fields_def by blast+

lemma Inv_col: "Inv s D R \<Longrightarrow> c < 325 \<Longrightarrow> col s (Col c) = c"
  unfolding Inv_def matrix_ok_def by blast

lemma set_row_items: "set (row_items r) = {row_items r ! 0, row_items r ! 1, row_items r ! 2, row_items r ! 3}"
  by (simp add: row_items_eq)

lemma row_items_nth_neq:
  assumes "r < 729" and "k < 4" and "k' < 4" and "k \<noteq> k'"
  shows "row_items r ! k \<noteq> row_items r ! k'"
  using row_items_nth(2) [OF assms(1,2)] row_items_nth(2) [OF assms(1,3)] assms(4) by metis

lemma cover_others_Inv:
  assumes inv: "Inv s D R" and r: "r < 729" and k0: "k0 < 4"
    and cD: "row_items r ! k0 \<in> D" and lv: "\<forall>k<4. k \<noteq> k0 \<longrightarrow> row_items r ! k \<notin> D"
  shows "\<exists>s' R'. cover_others (Cell r k0) (Cell r ((k0 + 1) mod 4)) s = Some s' \<and>
           Inv s' (D \<union> set (row_items r)) R' \<and>
           solution s' = solution s \<and> printed s' = printed s \<and>
           (\<forall>x y. uncover_others (Cell r k0) (Cell r ((k0 + 3) mod 4)) (with_io x y s')
                     = Some (with_io x y s))"
proof -
  define k1 k2 k3 where "k1 = (k0 + 1) mod 4" and "k2 = (k0 + 2) mod 4" and "k3 = (k0 + 3) mod 4"
  define c1 c2 c3 where "c1 = row_items r ! k1" and "c2 = row_items r ! k2" and "c3 = row_items r ! k3"
  have ks: "k1 < 4" "k2 < 4" "k3 < 4" "k1 \<noteq> k0" "k2 \<noteq> k0" "k3 \<noteq> k0" "k1 \<noteq> k2" "k1 \<noteq> k3" "k2 \<noteq> k3"
    "(k1 + 1) mod 4 = k2" "(k2 + 1) mod 4 = k3" "(k3 + 1) mod 4 = k0"
    "(k3 + 3) mod 4 = k2" "(k2 + 3) mod 4 = k1" "(k1 + 3) mod 4 = k0"
    using k0 unfolding k1_def k2_def k3_def by (cases k0 rule: family_cases; simp)+
  have cs: "c1 < 324" "c2 < 324" "c3 < 324"
    unfolding c1_def c2_def c3_def using row_items_nth(1) [OF r] ks(1-3) by blast+
  have ne: "c1 \<noteq> c2" "c1 \<noteq> c3" "c2 \<noteq> c3"
    unfolding c1_def c2_def c3_def using row_items_nth_neq [OF r] ks by blast+
  have nD: "c1 \<notin> D" "c2 \<notin> D" "c3 \<notin> D"
    unfolding c1_def c2_def c3_def using lv ks by blast+
  have sets: "D \<union> set (row_items r) = insert c3 (insert c2 (insert c1 D))"
  proof -
    obtain a b c d where e: "row_items r = [a, b, c, d]" using row_items_eq by blast
    have "set (row_items r) = {row_items r ! k0, c1, c2, c3}"
      using k0 unfolding c1_def c2_def c3_def k1_def k2_def k3_def e
      by (cases k0 rule: family_cases) auto
    then show ?thesis using cD by auto
  qed
  obtain s1 R1 where s1: "cover c1 s = Some s1" "Inv s1 (insert c1 D) R1"
      "solution s1 = solution s" "printed s1 = printed s"
      "\<And>x y. uncover c1 (with_io x y s1) = Some (with_io x y s)"
    using cover_step [OF inv cs(1) nD(1)] by blast
  have "c2 \<notin> insert c1 D" using ne nD by simp
  from cover_step [OF s1(2) cs(2) this]
  obtain s2 R2 where s2: "cover c2 s1 = Some s2" "Inv s2 (insert c2 (insert c1 D)) R2"
      "solution s2 = solution s1" "printed s2 = printed s1"
      "\<And>x y. uncover c2 (with_io x y s2) = Some (with_io x y s1)"
    by blast
  have "c3 \<notin> insert c2 (insert c1 D)" using ne nD by simp
  from cover_step [OF s2(2) cs(3) this]
  obtain s3 R3 where s3: "cover c3 s2 = Some s3" "Inv s3 (insert c3 (insert c2 (insert c1 D))) R3"
      "solution s3 = solution s2" "printed s3 = printed s2"
      "\<And>x y. uncover c3 (with_io x y s3) = Some (with_io x y s2)"
    by blast
  have cne: "Cell r k1 \<noteq> Cell r k0" "Cell r k2 \<noteq> Cell r k0" "Cell r k3 \<noteq> Cell r k0"
    using ks by simp_all
  have a3: "cover_others (Cell r k0) (Cell r k3) s2 = Some s3"
    using cne s3(1) Inv_cell(1) [OF s2(2) r ks(3)] Inv_cell(3) [OF s3(2) r ks(3)] ks(12)
    by (subst cover_others.simps, subst cover_others.simps) (simp add: c3_def)
  have a2: "cover_others (Cell r k0) (Cell r k2) s1 = Some s3"
    using cne s2(1) Inv_cell(1) [OF s1(2) r ks(2)] Inv_cell(3) [OF s2(2) r ks(2)] ks(11) a3
    by (subst cover_others.simps) (simp add: c2_def)
  have a1: "cover_others (Cell r k0) (Cell r k1) s = Some s3"
    using cne s1(1) Inv_cell(1) [OF inv r ks(1)] Inv_cell(3) [OF s1(2) r ks(1)] ks(10) a2
    by (subst cover_others.simps) (simp add: c1_def)
  have un: "uncover_others (Cell r k0) (Cell r k3) (with_io x y s3) = Some (with_io x y s)" for x y
  proof -
    have b1: "uncover_others (Cell r k0) (Cell r k1) (with_io x y s1) = Some (with_io x y s)"
      using cne s1(5) [of x y] Inv_cell(1) [OF s1(2) r ks(1)] Inv_cell(4) [OF inv r ks(1)] ks(15)
      by (subst uncover_others.simps, subst uncover_others.simps) (simp add: c1_def)
    have b2: "uncover_others (Cell r k0) (Cell r k2) (with_io x y s2) = Some (with_io x y s)"
      using cne s2(5) [of x y] Inv_cell(1) [OF s2(2) r ks(2)] Inv_cell(4) [OF s1(2) r ks(2)] ks(14) b1
      by (subst uncover_others.simps) (simp add: c2_def)
    show ?thesis
      using cne s3(5) [of x y] Inv_cell(1) [OF s3(2) r ks(3)] Inv_cell(4) [OF s2(2) r ks(3)] ks(13) b2
      by (subst uncover_others.simps) (simp add: c3_def)
  qed
  show ?thesis
    using a1 s3(2) un s1(3,4) s2(3,4) s3(3,4) unfolding sets k1_def [symmetric] k3_def [symmetric]
    by auto
qed

lemma scan_min_map:
  "\<forall>x\<in>set (h # t). f (g x) = f' x \<Longrightarrow> scan_min f (g h) (map g t) = g (scan_min f' h t)"
  by (induction t arbitrary: h) simp_all

lemma printSolution_lift: "Some (printSolution s) = lift_io s (Some (aprint (solution s, printed s)))"
  by (simp add: printSolution_def aprint_def with_io_def split: sum.splits)

lemma search_rows_sim_step:
  assumes S: "\<And>k s D R. Inv s D R \<Longrightarrow> search n k s = lift_io s (asearch n k D (solution s, printed s))"
    and Q: "\<And>k c pre rs t D R. Inv t (insert c D) R \<Longrightarrow> c < 324 \<Longrightarrow> c \<notin> D \<Longrightarrow> R c = pre @ rs \<Longrightarrow>
              R c = filter (alive D) (col_rows c) \<Longrightarrow>
              search_rows n k (Col c) (hd (map (cell_of c) rs @ [Col c])) t
                = lift_io t (asearch_rows n k D rs (solution t, printed t))"
    and inv: "Inv t (insert c D) R" and c: "c < 324" and cD: "c \<notin> D" and Rc: "R c = pre @ rs"
    and Rf: "R c = filter (alive D) (col_rows c)"
  shows "search_rows (Suc n) k (Col c) (hd (map (cell_of c) rs @ [Col c])) t
           = lift_io t (asearch_rows (Suc n) k D rs (solution t, printed t))"
proof (cases rs)
  case Nil
  then show ?thesis by simp
next
  case (Cons r rs')
  define i where "i = cell_of c r"
  define k0 where "k0 = c div 81"
  have hd: "hd (map (cell_of c) rs @ [Col c]) = i" by (simp add: Cons i_def)
  have ic: "i \<noteq> Col c" "i = Cell r k0" by (simp_all add: i_def cell_of_def k0_def)
  have k0: "k0 < 4" using c by (simp add: k0_def)
  have "r \<in> set (filter (alive D) (col_rows c))" using Rc Rf Cons by (metis in_set_conv_decomp)
  then have r: "r < 729" and rc: "in_col c r" and al: "alive D r" by (simp_all add: col_rows_mem)
  have ck: "row_items r ! k0 = c" using rc by (simp add: in_col_def k0_def)
  show ?thesis
  proof (cases "k < 81")
    case False
    then show ?thesis unfolding hd using ic(1) by (simp add: Cons)
  next
    case True
    define s1 where "s1 = with_io ((solution t)(k := int r)) (printed t) t"
    have s1e: "t\<lparr>solution := (solution t)(k := row t i)\<rparr> = s1"
      using Inv_cell(2) [OF inv r k0] by (simp add: s1_def with_io_def ic(2))
    have inv1: "Inv s1 (insert c D) R" unfolding s1_def by (rule Inv_with_io [OF inv])
    have r1: "right s1 i = Cell r ((k0 + 1) mod 4)" unfolding ic(2) by (rule Inv_cell(3) [OF inv1 r k0])
    have lv: "\<forall>k'<4. k' \<noteq> k0 \<longrightarrow> row_items r ! k' \<notin> insert c D"
    proof (intro allI impI)
      fix k' :: nat assume k': "k' < 4" "k' \<noteq> k0"
      have "row_items r ! k' \<in> set (row_items r)" using k' by simp
      then have "row_items r ! k' \<notin> D" using al unfolding alive_def by blast
      moreover have "row_items r ! k' \<noteq> c" using row_items_nth_neq [OF r k'(1) k0 k'(2)] ck by simp
      ultimately show "row_items r ! k' \<notin> insert c D" by simp
    qed
    have "row_items r ! k0 \<in> insert c D" using ck by simp
    from cover_others_Inv [OF inv1 r k0 this lv]
    obtain s2 R2 where s2: "cover_others (Cell r k0) (Cell r ((k0 + 1) mod 4)) s1 = Some s2"
        "Inv s2 (insert c D \<union> set (row_items r)) R2"
        "solution s2 = solution s1" "printed s2 = printed s1"
        "\<And>x y. uncover_others (Cell r k0) (Cell r ((k0 + 3) mod 4)) (with_io x y s2) = Some (with_io x y s1)"
      by blast
    have "c \<in> set (row_items r)" using ck k0 by (metis length_row_items nth_mem)
    then have De: "insert c D \<union> set (row_items r) = D \<union> set (row_items r)" by auto
    define a where "a = asearch n (k + 1) (D \<union> set (row_items r)) ((solution t)(k := int r), printed t)"
    have sr: "search n (k + 1) s2 = lift_io s2 a"
      using S [OF s2(2)] unfolding De a_def s2(3,4) by (simp add: s1_def)
    have lhs: "search_rows (Suc n) k (Col c) i t =
        (case search n (k + 1) s2 of
           None \<Rightarrow> None
         | Some (Inl e) \<Rightarrow> Some (Inl e)
         | Some (Inr s3) \<Rightarrow>
             (case uncover_others i (left s3 i) s3 of
                None \<Rightarrow> None
              | Some s4 \<Rightarrow> search_rows n k (Col c) (down s4 i) s4))"
      using ic(1) True s2(1) by (simp add: s1e r1 ic(2) [symmetric] Let_def)
    have rhs: "asearch_rows (Suc n) k D rs (solution t, printed t) =
        (case a of None \<Rightarrow> None | Some (Inl e) \<Rightarrow> Some (Inl e)
         | Some (Inr so') \<Rightarrow> asearch_rows n k D rs' so')"
      using True by (simp add: Cons a_def)
    show ?thesis
    proof (cases a)
      case None
      then show ?thesis unfolding hd lhs rhs sr by simp
    next
      case (Some res)
      show ?thesis
      proof (cases res)
        case (Inl e)
        then show ?thesis unfolding hd lhs rhs sr Some by simp
      next
        case (Inr so')
        define s3 where "s3 = with_io (fst so') (snd so') s2"
        define s4 where "s4 = with_io (fst so') (snd so') t"
        have inv3: "Inv s3 (insert c D \<union> set (row_items r)) R2"
          unfolding s3_def by (rule Inv_with_io [OF s2(2)])
        have l3: "left s3 i = Cell r ((k0 + 3) mod 4)"
          unfolding ic(2) by (rule Inv_cell(4) [OF inv3 r k0])
        have un: "uncover_others i (left s3 i) s3 = Some s4"
          unfolding l3 unfolding ic(2) s3_def s4_def
          using s2(5) [of "fst so'" "snd so'"] by (simp add: s1_def)
        have inv4: "Inv s4 (insert c D) R" unfolding s4_def by (rule Inv_with_io [OF inv])
        have "ring (down t) (up t) (Col c) (map (cell_of c) (R c))"
          using inv c unfolding Inv_def matrix_ok_def by blast
        then have "ring (down t) (up t) (Col c) (map (cell_of c) pre @ i # map (cell_of c) rs')"
          by (simp add: Rc Cons i_def)
        from ring_mid(1) [OF this] have dn: "down s4 i = hd (map (cell_of c) rs' @ [Col c])"
          by (simp add: s4_def)
        have Rc': "R c = (pre @ [r]) @ rs'" by (simp add: Rc Cons)
        have "search_rows n k (Col c) (down s4 i) s4
            = lift_io s4 (asearch_rows n k D rs' (solution s4, printed s4))"
          unfolding dn by (rule Q [OF inv4 c cD Rc' Rf])
        then have "search_rows n k (Col c) (down s4 i) s4 = lift_io t (asearch_rows n k D rs' so')"
          by (simp add: s4_def)
        then show ?thesis unfolding hd lhs rhs sr Some Inr by (simp add: un s3_def [symmetric])
      qed
    qed
  qed
qed


section \<open>The clues of a grid\<close>











end
